theory Spec2Isabelle
  imports Main "HOL-Library.Word" "HOL-Library.Signed_Division"
begin

section \<open>Data model of \<^verbatim>\<open>lru_ipv.hh\<close>\<close>

text \<open>
  The C++ types: \<^verbatim>\<open>uint64_t\<close> ages, \<^verbatim>\<open>uint32_t\<close> coordinates and \<^verbatim>\<open>int\<close>
  configuration values. Unsigned arithmetic wraps (word operations). A signed value is
  stored as a 32-bit word and read with \<open>sint\<close>; signed arithmetic is carried out on
  \<open>int\<close> and a result outside the range of \<^verbatim>\<open>int\<close> is the outcome \<open>SignedOverflow\<close>,
  because C++ leaves it undefined.
\<close>

type_synonym u64 = "64 word"
type_synonym u32 = "32 word"
type_synonym cint = "32 word"

text \<open>
  The ways an operation can fail to complete: \<open>Fatal\<close> is \<^verbatim>\<open>fatal_if\<close>, \<open>Panic\<close> is
  \<^verbatim>\<open>panic_if\<close>; the other three are undefined behaviour of C++ (an index outside a
  \<^verbatim>\<open>std::vector\<close>, signed overflow, \<^verbatim>\<open>%\<close> by zero), kept as explicit outcomes so that no
  result is ever read from an access the source does not define.
\<close>

datatype failure = Fatal | Panic | OutOfBounds | SignedOverflow | DivisionByZero

text \<open>\<^verbatim>\<open>struct IPVReplData\<close>; the field \<^verbatim>\<open>set\<close> is named \<open>set_id\<close> here.\<close>

record IPVReplData =
  age :: u64
  valid :: bool
  set_id :: u32
  way :: u32

text \<open>
  gem5's \<^verbatim>\<open>ReplaceableEntry\<close> as far as the policy uses it: \<^verbatim>\<open>getSet()\<close>, \<^verbatim>\<open>getWay()\<close>
  and the \<^verbatim>\<open>replacementData\<close> it points to. Every entry owns its record (gem5 gives each
  entry the result of its own \<^verbatim>\<open>instantiateEntry()\<close> call), so the record is a field of
  the entry, it is never null, and the tests \<^verbatim>\<open>if (d)\<close> of \<^verbatim>\<open>getVictim\<close> always succeed.
\<close>

record ReplaceableEntry =
  getSet :: u32
  getWay :: u32
  replacementData :: IPVReplData

text \<open>\<^verbatim>\<open>LRUIPVRPParams\<close>: the three parameters the constructor reads.\<close>

record LRUIPVRPParams =
  p_numWays :: cint
  p_mru_pct :: cint
  p_quantum :: cint

text \<open>The private members of \<^verbatim>\<open>class LRUIPVRP\<close>.\<close>

record LRUIPVRP =
  numWays :: cint
  mruPct :: cint
  quantum :: cint
  pv :: "cint list"
  insPos :: cint
  setAges :: "u32 \<rightharpoonup> u64 list"

section \<open>Vectors and signed arithmetic\<close>

text \<open>\<^verbatim>\<open>v[i]\<close> on a \<^verbatim>\<open>std::vector\<close> is defined only for \<open>0 \<le> i < v.size()\<close>.\<close>

definition in_bounds :: "'a list \<Rightarrow> int \<Rightarrow> bool" where
  "in_bounds v i \<longleftrightarrow> 0 \<le> i \<and> i < int (length v)"

text \<open>A signed result, stored back into an \<^verbatim>\<open>int\<close>.\<close>

definition checked :: "int \<Rightarrow> failure + cint" where
  "checked x = (if - (2 ^ 31) \<le> x \<and> x < 2 ^ 31 then Inr (word_of_int x) else Inl SignedOverflow)"

text \<open>
  \<^verbatim>\<open>setAges[set]\<close>: \<^verbatim>\<open>operator[]\<close> of \<^verbatim>\<open>std::unordered_map\<close> gives the empty vector for
  a key that is absent.
\<close>

definition setAges_at :: "(u32 \<rightharpoonup> u64 list) \<Rightarrow> u32 \<Rightarrow> u64 list" where
  "setAges_at m s = (case m s of None \<Rightarrow> [] | Some v \<Rightarrow> v)"

section \<open>Small utilities\<close>

text \<open>
  \<^verbatim>\<open>ensureSet\<close>: a vector shorter than \<^verbatim>\<open>numWays\<close> is resized to \<^verbatim>\<open>numWays\<close> and every slot
  \<open>i\<close> below \<^verbatim>\<open>numWays\<close> is overwritten with \<open>i\<close>; a vector that is long enough is left as
  it is.
\<close>

definition ensureSet :: "LRUIPVRP \<Rightarrow> u32 \<Rightarrow> LRUIPVRP" where
  "ensureSet st s =
     (let v = setAges_at (setAges st) s in
      if int (length v) < sint (numWays st)
      then st\<lparr>setAges := (setAges st)(s \<mapsto> map word_of_nat [0..<nat (sint (numWays st))])\<rparr>
      else st\<lparr>setAges := (setAges st)(s \<mapsto> v)\<rparr>)"

text \<open>
  \<^verbatim>\<open>normalize\<close>: \<^verbatim>\<open>idx\<close> is \<open>0, 1, ..., size-1\<close>, stably sorted by \<open>v[a] < v[b]\<close>
  (\<open>sort_key\<close> is insertion sort, which is stable); then the loop
  \<^verbatim>\<open>for (int i : idx) v[i] = a++\<close> with the \<^verbatim>\<open>uint64_t\<close> counter \<open>a\<close>.
\<close>

definition normalize_vec :: "u64 list \<Rightarrow> u64 list" where
  "normalize_vec v =
     (let idx = sort_key (\<lambda>a. v ! a) [0..<length v]
      in fst (fold (\<lambda>i (v', a). (v'[i := a], a + 1)) idx (v, 0)))"

text \<open>\<^verbatim>\<open>currentMRU\<close>: \<^verbatim>\<open>m = 0; for (auto x : v) m = std::max(m, x)\<close>.\<close>

definition currentMRU :: "u64 list \<Rightarrow> u64" where
  "currentMRU v = fold (\<lambda>x m. max m x) v 0"

text \<open>
  \<^verbatim>\<open>promoteToMRU\<close>. The read \<^verbatim>\<open>v[way]\<close> comes first; each step of the loop reads and
  writes slot \<open>i\<close> only and compares with the constant \<^verbatim>\<open>old\<close>. The result is the vector
  and the returned value \<^verbatim>\<open>v[way]\<close>.
\<close>

definition promoteToMRU :: "u64 list \<Rightarrow> int \<Rightarrow> failure + (u64 list \<times> u64)" where
  "promoteToMRU v w =
     (if \<not> in_bounds v w then Inl OutOfBounds
      else
        let old = v ! nat w;
            mru = currentMRU v;
            v1 = map (\<lambda>i. if int i = w then v ! i
                           else if v ! i > old then v ! i - 1 else v ! i) [0..<length v];
            v2 = v1[nat w := mru]
        in Inr (v2, v2 ! nat w))"

text \<open>
  \<^verbatim>\<open>insertNearLRU\<close>: the loop adds one to every slot but \<^verbatim>\<open>way\<close>, then \<^verbatim>\<open>v[way] = 0\<close>.
  The call \<^verbatim>\<open>normalize(v)\<close> after it is commented out in the source.
\<close>

definition insertNearLRU :: "u64 list \<Rightarrow> int \<Rightarrow> failure + (u64 list \<times> u64)" where
  "insertNearLRU v w =
     (let v1 = map (\<lambda>i. if int i = w then v ! i else v ! i + 1) [0..<length v]
      in if \<not> in_bounds v1 w then Inl OutOfBounds
         else let v2 = v1[nat w := 0] in Inr (v2, v2 ! nat w))"

section \<open>Policy implementation\<close>

text \<open>\<^verbatim>\<open>std::max(0, std::min(quantum, (quantum * mruPct) / 100))\<close>, \<open>/\<close> truncating.\<close>

definition mru_count_of :: "int \<Rightarrow> int \<Rightarrow> int" where
  "mru_count_of q qm = max 0 (min q (qm sdiv 100))"

text \<open>
  The constructor: the member initialisers (\<^verbatim>\<open>quantum(std::max(1, p.quantum))\<close>,
  \<^verbatim>\<open>pv(quantum, 0)\<close>, \<^verbatim>\<open>insPos(0)\<close>), then \<^verbatim>\<open>fatal_if(numWays <= 0)\<close>, then the loop
  \<^verbatim>\<open>for (int i = 0; i < mru_count; ++i) pv[i] = 1\<close>.
\<close>

definition LRUIPVRP_ctor :: "LRUIPVRPParams \<Rightarrow> failure + LRUIPVRP" where
  "LRUIPVRP_ctor p =
     (let q = max 1 (sint (p_quantum p));
          pv0 = replicate (nat q) (0 :: cint)
      in if sint (p_numWays p) \<le> 0 then Inl Fatal
         else case checked (q * sint (p_mru_pct p)) of
                Inl e \<Rightarrow> Inl e
              | Inr qm \<Rightarrow>
                  let mru_count = mru_count_of q (sint qm)
                  in Inr \<lparr>numWays = p_numWays p, mruPct = p_mru_pct p, quantum = word_of_int q,
                          pv = fold (\<lambda>i pv'. pv'[i := 1]) [0..<nat mru_count] pv0,
                          insPos = 0, setAges = Map.empty\<rparr>)"

text \<open>\<^verbatim>\<open>instantiateEntry\<close>: the default member initialisers of \<^verbatim>\<open>IPVReplData\<close>.\<close>

definition instantiateEntry :: IPVReplData where
  "instantiateEntry = \<lparr>age = 0, valid = False, set_id = 0, way = 0\<rparr>"

text \<open>\<^verbatim>\<open>invalidate\<close>: two writes to the record; the engine is not touched.\<close>

definition invalidate :: "LRUIPVRP \<Rightarrow> IPVReplData \<Rightarrow> LRUIPVRP \<times> IPVReplData" where
  "invalidate st d = (st, d\<lparr>valid := False, age := 0\<rparr>)"

text \<open>\<^verbatim>\<open>touch\<close>: \<^verbatim>\<open>way = static_cast<int>(d->way)\<close> is the two's-complement reading.\<close>

definition touch :: "LRUIPVRP \<Rightarrow> IPVReplData \<Rightarrow> failure + (LRUIPVRP \<times> IPVReplData)" where
  "touch st d =
     (let s = set_id d;
          w = sint (way d);
          st1 = ensureSet st s;
          v = setAges_at (setAges st1) s
      in case promoteToMRU v w of
           Inl e \<Rightarrow> Inl e
         | Inr (v', r) \<Rightarrow>
             Inr (st1\<lparr>setAges := (setAges st1)(s \<mapsto> v')\<rparr>, d\<lparr>age := v' ! nat w, valid := True\<rparr>))"

text \<open>The schedule entry under the cursor: \<^verbatim>\<open>pv[insPos] == 1\<close>.\<close>

definition insertMRU :: "LRUIPVRP \<Rightarrow> failure + bool" where
  "insertMRU st =
     (if in_bounds (pv st) (sint (insPos st)) then Inr (pv st ! nat (sint (insPos st)) = 1)
      else Inl OutOfBounds)"

text \<open>\<^verbatim>\<open>insPos = (insPos + 1) % quantum\<close>, \<open>%\<close> the truncating remainder.\<close>

definition advance :: "LRUIPVRP \<Rightarrow> failure + LRUIPVRP" where
  "advance st =
     (case checked (sint (insPos st) + 1) of
        Inl e \<Rightarrow> Inl e
      | Inr n \<Rightarrow>
          if sint (quantum st) = 0 then Inl DivisionByZero
          else Inr (st\<lparr>insPos := word_of_int (sint n smod sint (quantum st))\<rparr>))"

text \<open>\<^verbatim>\<open>reset\<close>.\<close>

definition reset :: "LRUIPVRP \<Rightarrow> IPVReplData \<Rightarrow> failure + (LRUIPVRP \<times> IPVReplData)" where
  "reset st d =
     (let s = set_id d;
          w = sint (way d);
          st1 = ensureSet st s;
          v = setAges_at (setAges st1) s
      in case insertMRU st1 of
           Inl e \<Rightarrow> Inl e
         | Inr mru_insert \<Rightarrow>
            (case advance st1 of
               Inl e \<Rightarrow> Inl e
             | Inr st2 \<Rightarrow>
                (case (if mru_insert then promoteToMRU v w else insertNearLRU v w) of
                   Inl e \<Rightarrow> Inl e
                 | Inr (v', new_age) \<Rightarrow>
                     Inr (st2\<lparr>setAges := (setAges st2)(s \<mapsto> v')\<rparr>,
                          d\<lparr>age := new_age, valid := True\<rparr>))))"

text \<open>The first loop of \<^verbatim>\<open>getVictim\<close>: three writes to each candidate's record.\<close>

definition stamp :: "ReplaceableEntry \<Rightarrow> ReplaceableEntry" where
  "stamp e = e\<lparr>replacementData :=
                 (replacementData e)\<lparr>set_id := getSet e, way := getWay e, valid := True\<rparr>\<rparr>"

text \<open>
  The second loop, the warm-start sync: \<^verbatim>\<open>w = static_cast<int>(e->getWay())\<close> and the
  write \<^verbatim>\<open>v[w] = d->age\<close> under the guard \<^verbatim>\<open>w >= 0 && w < numWays\<close>.
\<close>

fun sync :: "int \<Rightarrow> ReplaceableEntry list \<Rightarrow> u64 list \<Rightarrow> failure + u64 list" where
  "sync nw [] v = Inr v"
| "sync nw (e # es) v =
     (let w = sint (getWay e)
      in if 0 \<le> w \<and> w < nw
         then (if in_bounds v w then sync nw es (v[nat w := age (replacementData e)])
               else Inl OutOfBounds)
         else sync nw es v)"

text \<open>
  The third loop, the scan for the minimal age. The pointer \<^verbatim>\<open>victim\<close> is the position
  of the entry in \<^verbatim>\<open>candidates\<close>: \<open>i\<close> is the position of the head of the list still to
  scan.
\<close>

fun scan :: "ReplaceableEntry list \<Rightarrow> nat \<Rightarrow> nat \<times> u64 \<Rightarrow> nat \<times> u64" where
  "scan [] i acc = acc"
| "scan (e # es) i (victim, min_age) =
     (if age (replacementData e) \<le> min_age
      then scan es (Suc i) (i, age (replacementData e))
      else scan es (Suc i) (victim, min_age))"

text \<open>
  \<^verbatim>\<open>getVictim\<close>. The result is the engine, the candidates with their records as the call
  leaves them, and the position of the victim in \<^verbatim>\<open>candidates\<close>.
\<close>

definition getVictim ::
  "LRUIPVRP \<Rightarrow> ReplaceableEntry list \<Rightarrow> failure + (LRUIPVRP \<times> ReplaceableEntry list \<times> nat)" where
  "getVictim st candidates =
     (if candidates = [] then Inl Panic
      else
        let s = getSet (candidates ! 0);
            cs = map stamp candidates;
            st1 = ensureSet st s;
            v = setAges_at (setAges st1) s
        in case sync (sint (numWays st1)) cs v of
             Inl e \<Rightarrow> Inl e
           | Inr v' \<Rightarrow>
               Inr (st1\<lparr>setAges := (setAges st1)(s \<mapsto> normalize_vec v')\<rparr>, cs,
                    fst (scan cs 0 (0, - 1))))"

section \<open>Reachable engines and dense vectors\<close>

text \<open>
  The engines a host can hold: a constructed one, after any calls that completed
  (\<^verbatim>\<open>invalidate\<close> leaves the engine as it is).
\<close>

inductive reachable :: "LRUIPVRP \<Rightarrow> bool" where
  r_ctor: "LRUIPVRP_ctor p = Inr st \<Longrightarrow> reachable st"
| r_touch: "reachable st \<Longrightarrow> touch st d = Inr (st', d') \<Longrightarrow> reachable st'"
| r_reset: "reachable st \<Longrightarrow> reset st d = Inr (st', d') \<Longrightarrow> reachable st'"
| r_getVictim: "reachable st \<Longrightarrow> getVictim st cs = Inr (st', cs', k) \<Longrightarrow> reachable st'"

text \<open>A dense permutation: the values are exactly \<open>0, ..., size-1\<close>, each once.\<close>

definition dense :: "u64 list \<Rightarrow> bool" where
  "dense v \<longleftrightarrow> sort (map unat v) = [0..<length v]"

text \<open>
  A run of calls by the host, in order, on whatever records and sets it names. For every
  \<^verbatim>\<open>reset\<close> of the run (a fill) the run keeps the engine and the record before the call,
  the value of the local \<^verbatim>\<open>insertMRU\<close> that \<^verbatim>\<open>reset\<close> reads from the schedule, and the
  engine and the record after the call; the other calls only move the engine on.
\<close>

datatype call =
  Touch IPVReplData
| Reset IPVReplData
| GetVictim "ReplaceableEntry list"
| Invalidate IPVReplData

record fill =
  f_mru :: bool
  f_before :: LRUIPVRP
  f_record :: IPVReplData
  f_after :: LRUIPVRP
  f_record' :: IPVReplData

fun calls :: "LRUIPVRP \<Rightarrow> call list \<Rightarrow> failure + (fill list \<times> LRUIPVRP)" where
  "calls st [] = Inr ([], st)"
| "calls st (Touch d # cs) =
     (case touch st d of
        Inl e \<Rightarrow> Inl e
      | Inr (st', d') \<Rightarrow> calls st' cs)"
| "calls st (Reset d # cs) =
     (case insertMRU st of
        Inl e \<Rightarrow> Inl e
      | Inr b \<Rightarrow>
         (case reset st d of
            Inl e \<Rightarrow> Inl e
          | Inr (st', d') \<Rightarrow>
             (case calls st' cs of
                Inl e \<Rightarrow> Inl e
              | Inr (fs, st'') \<Rightarrow>
                  Inr (\<lparr>f_mru = b, f_before = st, f_record = d,
                        f_after = st', f_record' = d'\<rparr> # fs, st''))))"
| "calls st (GetVictim candidates # cs) =
     (case getVictim st candidates of
        Inl e \<Rightarrow> Inl e
      | Inr (st', cs', k) \<Rightarrow> calls st' cs)"
| "calls st (Invalidate d # cs) = calls (fst (invalidate st d)) cs"

text \<open>
  Two invariants of reachable engines: every Age Table vector has \<^verbatim>\<open>numWays\<close> slots; the
  schedule is the pattern the constructor wrote and the cursor is inside it.
\<close>

definition tables_ok :: "LRUIPVRP \<Rightarrow> bool" where
  "tables_ok st \<longleftrightarrow>
     0 < sint (numWays st) \<and>
     (\<forall>s v. setAges st s = Some v \<longrightarrow> length v = nat (sint (numWays st)))"

definition schedule_ok :: "LRUIPVRP \<Rightarrow> bool" where
  "schedule_ok st \<longleftrightarrow>
     (let q = sint (quantum st); m = sint (mruPct st); mru_count = mru_count_of q (q * m)
      in 1 \<le> q \<and> 0 \<le> sint (insPos st) \<and> sint (insPos st) < q \<and>
         - (2 ^ 31) \<le> q * m \<and> q * m < 2 ^ 31 \<and>
         pv st = replicate (nat mru_count) 1 @ replicate (nat (q - mru_count)) 0)"

section \<open>Dense vectors and \<^verbatim>\<open>normalize\<close>\<close>

lemma dense_iff: "dense v \<longleftrightarrow> distinct v \<and> (\<forall>x\<in>set v. unat x < length v)"
proof
  assume d: "dense v"
  then have eq: "sort (map unat v) = [0..<length v]" by (simp add: dense_def)
  have "distinct (sort (map unat v))" by (simp only: eq distinct_upt)
  then have "distinct (map unat v)" by simp
  then have dv: "distinct v" by (simp add: distinct_map)
  have "set (sort (map unat v)) = {0..<length v}" by (simp only: eq set_upt)
  then have "unat ` set v = {0..<length v}" by simp
  then have "\<forall>x\<in>set v. unat x < length v" by auto
  with dv show "distinct v \<and> (\<forall>x\<in>set v. unat x < length v)" by simp
next
  assume a: "distinct v \<and> (\<forall>x\<in>set v. unat x < length v)"
  have "inj_on unat (set v)" by (rule inj_onI) (simp add: word_unat_eq_iff)
  then have dm: "distinct (map unat v)" using a by (simp add: distinct_map)
  have sub: "set (map unat v) \<subseteq> {0..<length v}" using a by auto
  have "card (set (map unat v)) = length v" using dm distinct_card by fastforce
  then have seteq: "set (map unat v) = {0..<length v}"
    using sub by (simp add: card_subset_eq)
  have "sort (map unat v) = [0..<length v]"
    using dm seteq by (intro sorted_distinct_set_unique) simp_all
  then show "dense v" by (simp add: dense_def)
qed

lemma relabel_length:
  "length (fst (fold (\<lambda>i (v', a). (v'[i := a], a + 1)) idx (v, a))) = length v"
  by (induction idx arbitrary: v a) simp_all

lemma relabel_other:
  "j \<notin> set idx \<Longrightarrow> fst (fold (\<lambda>i (v', a). (v'[i := a], a + 1)) idx (v, a)) ! j = v ! j"
  by (induction idx arbitrary: v a) simp_all

lemma relabel_nth:
  "distinct idx \<Longrightarrow> \<forall>i\<in>set idx. i < length v \<Longrightarrow> k < length idx \<Longrightarrow>
   fst (fold (\<lambda>i (v', a :: u64). (v'[i := a], a + 1)) idx (v, a)) ! (idx ! k) = a + word_of_nat k"
proof (induction idx arbitrary: v a k)
  case Nil
  then show ?case by simp
next
  case (Cons i idx)
  show ?case
  proof (cases k)
    case 0
    then show ?thesis using Cons.prems by (simp add: relabel_other)
  next
    case (Suc k')
    then show ?thesis using Cons.prems Cons.IH [of "v[i := a]" k' "a + 1"] by simp
  qed
qed

text \<open>
  Insertion sort on increasing positions orders them by key and, among equal keys, by
  position.
\<close>

lemma insort_key_stable_order:
  fixes f :: "nat \<Rightarrow> 'b :: linorder"
  assumes "sorted_wrt (\<lambda>i j. f i < f j \<or> (f i = f j \<and> i < j)) ys" "\<forall>y\<in>set ys. x < y"
  shows "sorted_wrt (\<lambda>i j. f i < f j \<or> (f i = f j \<and> i < j)) (insort_key f x ys)"
  using assms
proof (induction ys)
  case Nil
  then show ?case by simp
next
  case (Cons y ys)
  show ?case
  proof (cases "f x \<le> f y")
    case True
    then show ?thesis using Cons.prems by (auto simp: less_le)
  next
    case False
    then show ?thesis using Cons.prems Cons.IH by (auto simp: set_insort_key)
  qed
qed

lemma sort_key_stable_order:
  fixes f :: "nat \<Rightarrow> 'b :: linorder"
  shows "sorted_wrt (<) xs \<Longrightarrow> sorted_wrt (\<lambda>i j. f i < f j \<or> (f i = f j \<and> i < j)) (sort_key f xs)"
proof (induction xs)
  case Nil
  then show ?case by simp
next
  case (Cons x xs)
  have "sort_key f (x # xs) = insort_key f x (sort_key f xs)" by (simp add: sort_key_def)
  moreover have "sorted_wrt (\<lambda>i j. f i < f j \<or> (f i = f j \<and> i < j)) (insort_key f x (sort_key f xs))"
    using Cons by (intro insort_key_stable_order) auto
  ultimately show ?case by simp
qed


lemma normalize_vec_length: "length (normalize_vec v) = length v"
  by (simp add: normalize_vec_def relabel_length)

lemma normalize_vec_nth:
  assumes "k < length v"
  shows "normalize_vec v ! (sort_key (\<lambda>a. v ! a) [0..<length v] ! k) = word_of_nat k"
proof -
  let ?idx = "sort_key (\<lambda>a. v ! a) [0..<length v]"
  have "distinct ?idx" by simp
  moreover have "\<forall>i\<in>set ?idx. i < length v" by simp
  moreover have "k < length ?idx" using assms by simp
  ultimately show ?thesis
    using relabel_nth [of ?idx v k 0] by (simp add: normalize_vec_def)
qed

lemma normalize_vec_rank:
  assumes "i < length v"
  obtains k where "k < length v" "sort_key (\<lambda>a. v ! a) [0..<length v] ! k = i"
    "normalize_vec v ! i = word_of_nat k"
proof -
  let ?idx = "sort_key (\<lambda>a. v ! a) [0..<length v]"
  have "i \<in> set ?idx" using assms by simp
  then have "\<exists>k<length ?idx. ?idx ! k = i" unfolding in_set_conv_nth by blast
  then obtain k where k: "k < length ?idx" "?idx ! k = i" by blast
  then have "k < length v" by simp
  moreover have "normalize_vec v ! i = word_of_nat k"
    using normalize_vec_nth [OF \<open>k < length v\<close>] k(2) by simp
  ultimately show ?thesis using that k(2) by blast
qed

lemma normalize_vec_order:
  assumes len: "length v \<le> 2 ^ 64" and i: "i < length v" and j: "j < length v"
    and R: "v ! i < v ! j \<or> (v ! i = v ! j \<and> i < j)"
  shows "normalize_vec v ! i < normalize_vec v ! j"
proof -
  let ?idx = "sort_key (\<lambda>a. v ! a) [0..<length v]"
  let ?R = "\<lambda>i j. v ! i < v ! j \<or> (v ! i = v ! j \<and> i < j)"
  obtain ki where ki: "ki < length v" "?idx ! ki = i" "normalize_vec v ! i = word_of_nat ki"
    using normalize_vec_rank [OF i] by blast
  obtain kj where kj: "kj < length v" "?idx ! kj = j" "normalize_vec v ! j = word_of_nat kj"
    using normalize_vec_rank [OF j] by blast
  have "sorted_wrt ?R ?idx"
    by (rule sort_key_stable_order) simp
  then have nth: "\<And>a b. a < b \<Longrightarrow> b < length v \<Longrightarrow> ?R (?idx ! a) (?idx ! b)"
    by (simp add: sorted_wrt_iff_nth_less)
  have "ki < kj"
  proof (rule ccontr)
    assume "\<not> ki < kj"
    then consider "ki = kj" | "kj < ki" by linarith
    then show False
    proof cases
      case 1
      then show ?thesis using ki kj R by auto
    next
      case 2
      then have "?R j i" using nth [of kj ki] ki kj by simp
      then show ?thesis using R by auto
    qed
  qed
  moreover have "unat (word_of_nat ki :: u64) = ki" "unat (word_of_nat kj :: u64) = kj"
    using ki(1) kj(1) len by (simp_all add: unat_of_nat)
  ultimately show ?thesis using ki(3) kj(3) by (simp add: word_less_nat_alt)
qed

lemma normalize_vec_dense:
  assumes len: "length v \<le> 2 ^ 64"
  shows "dense (normalize_vec v)"
proof -
  have "distinct (normalize_vec v)"
  proof (subst distinct_conv_nth, intro allI impI)
    fix i j
    assume i: "i < length (normalize_vec v)" and j: "j < length (normalize_vec v)" and ne: "i \<noteq> j"
    then have i': "i < length v" and j': "j < length v" by (simp_all add: normalize_vec_length)
    have tot: "(v ! i < v ! j \<or> (v ! i = v ! j \<and> i < j)) \<or> (v ! j < v ! i \<or> (v ! j = v ! i \<and> j < i))"
      using ne by auto
    then show "normalize_vec v ! i \<noteq> normalize_vec v ! j"
      using normalize_vec_order [OF len i' j'] normalize_vec_order [OF len j' i'] by auto
  qed
  moreover have "\<forall>x\<in>set (normalize_vec v). unat x < length (normalize_vec v)"
  proof
    fix x assume "x \<in> set (normalize_vec v)"
    then obtain i where i: "i < length v" "normalize_vec v ! i = x"
      by (auto simp: in_set_conv_nth normalize_vec_length)
    obtain k where k: "k < length v" "normalize_vec v ! i = word_of_nat k"
      using normalize_vec_rank [OF i(1)] by blast
    have "unat (word_of_nat k :: u64) = k" using k(1) len by (simp add: unat_of_nat)
    then show "unat x < length (normalize_vec v)"
      using i(2) k by (simp add: normalize_vec_length)
  qed
  ultimately show ?thesis by (simp add: dense_iff)
qed

text \<open>
  C7. \<^verbatim>\<open>normalize\<close> rewrites a vector so that its values are exactly \<open>0, ..., size-1\<close>,
  a way with a strictly smaller old value gets a strictly smaller new value, and among
  ways with equal old values the smaller index gets the smaller new value. The vector
  has fewer than \<open>2^31\<close> slots, since \<^verbatim>\<open>normalize\<close> keeps the positions in a
  \<^verbatim>\<open>std::vector<int>\<close>.
\<close>

theorem normalize_dense_stable:
  assumes "length v < 2 ^ 31"
  shows "length (normalize_vec v) = length v \<and> dense (normalize_vec v) \<and>
         (\<forall>i<length v. \<forall>j<length v. v ! i < v ! j \<longrightarrow> normalize_vec v ! i < normalize_vec v ! j) \<and>
         (\<forall>i<length v. \<forall>j<length v. v ! i = v ! j \<and> i < j \<longrightarrow>
            normalize_vec v ! i < normalize_vec v ! j)"
proof -
  have len: "length v \<le> 2 ^ 64"
  proof -
    have "(2 :: nat) ^ 31 \<le> 2 ^ 64" by simp
    with assms show ?thesis by linarith
  qed
  show ?thesis
    using normalize_vec_order [OF len] normalize_vec_dense [OF len]
    by (simp add: normalize_vec_length)
qed

theorem normalize_dense_stable_witness:
  "length [5, 5, 1, 5, 1 :: u64] < 2 ^ 31 \<and>
   normalize_vec [5, 5, 1, 5, 1] = [2, 3, 0, 4, 1] \<and>
   dense (normalize_vec [5, 5, 1, 5, 1])"
proof -
  have h: "length [5, 5, 1, 5, 1 :: u64] < 2 ^ 31" by simp
  have "normalize_vec [5, 5, 1, 5, 1] = [2, 3, 0, 4, 1]"
    by code_simp
  with h normalize_dense_stable [OF h] show ?thesis by blast
qed

section \<open>The rank update rules\<close>

lemma fold_max_ge: "m \<le> fold (\<lambda>x m. max m x) v (m :: u64)"
proof (induction v arbitrary: m)
  case Nil
  then show ?case by simp
next
  case (Cons x v)
  have "m \<le> max m x" by simp
  also have "\<dots> \<le> fold (\<lambda>x m. max m x) v (max m x)" by (rule Cons.IH)
  finally show ?case by simp
qed

lemma fold_max_upper: "x \<in> set v \<Longrightarrow> x \<le> fold (\<lambda>x m. max m x) v (m :: u64)"
proof (induction v arbitrary: m)
  case Nil
  then show ?case by simp
next
  case (Cons y v)
  show ?case
  proof (cases "x = y")
    case True
    have "x \<le> max m y" using True by simp
    also have "\<dots> \<le> fold (\<lambda>x m. max m x) v (max m y)" by (rule fold_max_ge)
    finally show ?thesis by simp
  next
    case False
    then show ?thesis using Cons by simp
  qed
qed

lemma fold_max_mem: "fold (\<lambda>x m. max m x) v (m :: u64) \<in> insert m (set v)"
proof (induction v arbitrary: m)
  case Nil
  then show ?case by simp
next
  case (Cons y v)
  have "fold (\<lambda>x m. max m x) v (max m y) \<in> insert (max m y) (set v)" by (rule Cons.IH)
  then show ?case by (auto simp: max_def split: if_splits)
qed

lemma currentMRU_upper: "x \<in> set v \<Longrightarrow> x \<le> currentMRU v"
  by (simp add: currentMRU_def fold_max_upper)

lemma currentMRU_mem: "v \<noteq> [] \<Longrightarrow> currentMRU v \<in> set v"
proof -
  assume ne: "v \<noteq> []"
  have "currentMRU v \<in> insert 0 (set v)" unfolding currentMRU_def by (rule fold_max_mem)
  moreover have "currentMRU v = 0 \<Longrightarrow> currentMRU v \<in> set v"
  proof -
    assume z: "currentMRU v = 0"
    obtain x where x: "x \<in> set v" using ne by (cases v) auto
    then have "x \<le> 0" using currentMRU_upper [OF x] z by simp
    then have "x = 0" by simp
    with x z show ?thesis by simp
  qed
  ultimately show ?thesis by auto
qed

lemma dense_image: "dense v \<Longrightarrow> unat ` set v = {0..<length v}"
proof -
  assume "dense v"
  then have eq: "sort (map unat v) = [0..<length v]" by (simp add: dense_def)
  have "set (sort (map unat v)) = {0..<length v}" by (simp only: eq set_upt)
  then show ?thesis by simp
qed

lemma currentMRU_dense:
  assumes "dense v" "v \<noteq> []"
  shows "unat (currentMRU v) = length v - 1"
proof -
  have "length v - 1 \<in> unat ` set v" using assms by (simp add: dense_image)
  then obtain x where x: "x \<in> set v" "unat x = length v - 1" by auto
  have "unat x \<le> unat (currentMRU v)" using currentMRU_upper [OF x(1)] by (simp add: word_le_nat_alt)
  moreover have "unat (currentMRU v) < length v"
    using currentMRU_mem [OF assms(2)] assms(1) by (simp add: dense_iff)
  ultimately show ?thesis using x(2) by linarith
qed

lemma promoteToMRU_nth:
  assumes "in_bounds v w" "i < length v"
  shows "promoteToMRU v w = Inr (v2, r) \<Longrightarrow>
         v2 ! i = (if i = nat w then currentMRU v
                   else if v ! i > v ! nat w then v ! i - 1 else v ! i)"
  using assms by (auto simp: promoteToMRU_def in_bounds_def Let_def)

lemma promoteToMRU_dense:
  assumes d: "dense v" and w: "in_bounds v w"
  shows "\<exists>v2. promoteToMRU v w = Inr (v2, word_of_nat (length v - 1)) \<and> length v2 = length v \<and> dense v2"
proof -
  let ?n = "length v"
  let ?k = "nat w"
  have k: "?k < ?n" and w0: "0 \<le> w" using w by (auto simp: in_bounds_def)
  then have ne: "v \<noteq> []" by auto
  define v2 where "v2 = (map (\<lambda>i. if int i = w then v ! i
                     else if v ! i > v ! ?k then v ! i - 1 else v ! i) [0..<?n])[?k := currentMRU v]"
  have len: "length v2 = ?n" by (simp add: v2_def)
  have mru: "unat (currentMRU v) = ?n - 1" by (rule currentMRU_dense [OF d ne])
  have res: "promoteToMRU v w = Inr (v2, currentMRU v)"
    using w k by (simp add: promoteToMRU_def Let_def v2_def)
  have dv: "distinct v" and bv: "\<forall>x\<in>set v. unat x < ?n" using d by (simp_all add: dense_iff)
  have un: "\<And>i j. i < ?n \<Longrightarrow> j < ?n \<Longrightarrow> i \<noteq> j \<Longrightarrow> unat (v ! i) \<noteq> unat (v ! j)"
    using dv by (simp add: distinct_conv_nth word_unat_eq_iff [symmetric])
  have ub: "\<And>i. i < ?n \<Longrightarrow> unat (v ! i) < ?n" using bv by simp
  have nth: "\<And>i. i < ?n \<Longrightarrow> unat (v2 ! i) =
       (if i = ?k then ?n - 1 else if unat (v ! i) > unat (v ! ?k) then unat (v ! i) - 1 else unat (v ! i))"
  proof -
    fix i assume i: "i < ?n"
    have "v2 ! i = (if i = ?k then currentMRU v else if v ! i > v ! ?k then v ! i - 1 else v ! i)"
      using i k w0 by (auto simp: v2_def)
    moreover have "v ! i > v ! ?k \<Longrightarrow> unat (v ! i - 1) = unat (v ! i) - 1"
      by (rule unat_minus_one) auto
    ultimately show "unat (v2 ! i) =
       (if i = ?k then ?n - 1 else if unat (v ! i) > unat (v ! ?k) then unat (v ! i) - 1 else unat (v ! i))"
      using mru by (simp add: word_less_nat_alt)
  qed
  have "distinct v2"
  proof (subst distinct_conv_nth, intro allI impI)
    fix i j assume i: "i < length v2" and j: "j < length v2" and ne: "i \<noteq> j"
    then have i': "i < ?n" and j': "j < ?n" by (simp_all add: len)
    have "unat (v2 ! i) \<noteq> unat (v2 ! j)"
      using nth [OF i'] nth [OF j'] un [OF i' j' ne] un [OF i' k] un [OF j' k] ub [OF i'] ub [OF j'] ub [OF k]
      by (auto split: if_splits)
    then show "v2 ! i \<noteq> v2 ! j" by auto
  qed
  moreover have "\<forall>x\<in>set v2. unat x < length v2"
  proof
    fix x assume "x \<in> set v2"
    then obtain i where i: "i < ?n" "v2 ! i = x" by (auto simp: in_set_conv_nth len)
    show "unat x < length v2" using nth [OF i(1)] ub [OF i(1)] i(2) k by (auto simp: len split: if_splits)
  qed
  ultimately have "dense v2" by (simp add: dense_iff)
  moreover have "currentMRU v = word_of_nat (?n - 1)"
  proof -
    have "word_of_nat (unat (currentMRU v)) = (ucast (currentMRU v) :: u64)" by simp
    then show ?thesis using mru by simp
  qed
  ultimately show ?thesis using res len by auto
qed

lemma promoteToMRU_length: "promoteToMRU v w = Inr (v2, r) \<Longrightarrow> length v2 = length v"
  by (auto simp: promoteToMRU_def Let_def split: if_splits)

lemma insertNearLRU_length: "insertNearLRU v w = Inr (v2, r) \<Longrightarrow> length v2 = length v"
  by (auto simp: insertNearLRU_def Let_def split: if_splits)

text \<open>
  C4. On a dense permutation and a way inside it, \<^verbatim>\<open>promoteToMRU\<close> returns a dense
  permutation of the same size in which the chosen way holds the maximum \<open>size-1\<close>
  (which is also the value returned); every other way whose old value exceeded the
  chosen way's old value is decremented by exactly one, without wrapping, and every other
  way whose old value was at or below it is unchanged.
\<close>

theorem promoteToMRU_dense_shift:
  assumes "dense v" and "0 \<le> w" and "w < int (length v)"
  shows "\<exists>v2. promoteToMRU v w = Inr (v2, word_of_nat (length v - 1)) \<and>
           length v2 = length v \<and> dense v2 \<and>
           v2 ! nat w = word_of_nat (length v - 1) \<and> unat (v2 ! nat w) = length v - 1 \<and>
           (\<forall>i<length v. i \<noteq> nat w \<longrightarrow>
              (v ! nat w < v ! i \<longrightarrow> v2 ! i = v ! i - 1 \<and> Suc (unat (v2 ! i)) = unat (v ! i)) \<and>
              (v ! i \<le> v ! nat w \<longrightarrow> v2 ! i = v ! i))"
proof -
  have w: "in_bounds v w" using assms by (simp add: in_bounds_def)
  then have ne: "v \<noteq> []" by (auto simp: in_bounds_def)
  obtain v2 where v2: "promoteToMRU v w = Inr (v2, word_of_nat (length v - 1))"
      "length v2 = length v" "dense v2"
    using promoteToMRU_dense [OF assms(1) w] by blast
  have nth: "\<And>i. i < length v \<Longrightarrow> v2 ! i = (if i = nat w then currentMRU v
                   else if v ! i > v ! nat w then v ! i - 1 else v ! i)"
    using promoteToMRU_nth [OF w _ v2(1)] by blast
  have k: "nat w < length v" using assms by simp
  have mru: "unat (currentMRU v) = length v - 1" by (rule currentMRU_dense [OF assms(1) ne])
  have top: "v2 ! nat w = word_of_nat (length v - 1)"
    using v2(1) w by (auto simp: promoteToMRU_def Let_def)
  have top': "unat (v2 ! nat w) = length v - 1" using nth [OF k] mru by simp
  have dec: "\<And>i. v ! nat w < v ! i \<Longrightarrow> Suc (unat (v ! i - 1)) = unat (v ! i)"
  proof -
    fix i assume lt: "v ! nat w < v ! i"
    then have nz: "v ! i \<noteq> 0" by auto
    then have "0 < unat (v ! i)" by (simp add: unat_gt_0)
    then show "Suc (unat (v ! i - 1)) = unat (v ! i)" using unat_minus_one [OF nz] by simp
  qed
  have "\<forall>i<length v. i \<noteq> nat w \<longrightarrow>
              (v ! nat w < v ! i \<longrightarrow> v2 ! i = v ! i - 1 \<and> Suc (unat (v2 ! i)) = unat (v ! i)) \<and>
              (v ! i \<le> v ! nat w \<longrightarrow> v2 ! i = v ! i)"
    using nth dec by auto
  then show ?thesis using v2 top top' by blast
qed

theorem promoteToMRU_dense_shift_witness:
  "dense [2, 0, 3, 1] \<and> (0 :: int) \<le> 1 \<and> (1 :: int) < int (length [2, 0, 3, 1 :: u64]) \<and>
   promoteToMRU [2, 0, 3, 1] 1 = Inr ([1, 3, 2, 0], 3) \<and>
   (\<exists>v2. promoteToMRU [2, 0, 3, 1] 1 = Inr (v2, word_of_nat (length [2, 0, 3, 1 :: u64] - 1)) \<and> dense v2)"
proof -
  have h1: "dense [2, 0, 3, 1]" by code_simp
  have h2: "(0 :: int) \<le> 1" by simp
  have h3: "(1 :: int) < int (length [2, 0, 3, 1 :: u64])" by simp
  have e: "promoteToMRU [2, 0, 3, 1] 1 = Inr ([1, 3, 2, 0], 3)" by code_simp
  from promoteToMRU_dense_shift [OF h1 h2 h3] h1 h2 h3 e show ?thesis by blast
qed

text \<open>
  C3. \<^verbatim>\<open>insertNearLRU\<close> on the dense permutation \<open>0 1 2 3\<close> and way 1 leaves
  \<open>1 0 3 4\<close>: the chosen way holds 0, but the vector is not a dense permutation of
  \<open>0..3\<close>. The comment in the source announces "then compact"; the call of
  \<^verbatim>\<open>normalize\<close> that would do it is commented out.
\<close>

theorem insertNearLRU_not_dense:
  "dense [0, 1, 2, 3] \<and> insertNearLRU [0, 1, 2, 3] 1 = Inr ([1, 0, 3, 4], 0) \<and> \<not> dense [1, 0, 3, 4]"
  by code_simp

text \<open>
  What \<^verbatim>\<open>insertNearLRU\<close> does leave: the chosen way at 0 and every other slot one higher.
  With the commented-out \<^verbatim>\<open>normalize(v)\<close> applied to that result the vector would be a
  dense permutation again, with the chosen way still at 0.
\<close>

lemma insertNearLRU_nth:
  assumes "insertNearLRU v w = Inr (v2, r)" and "i < length v"
  shows "v2 ! i = (if i = nat w then 0 else v ! i + 1)" and "r = 0" and "in_bounds v w"
proof -
  have ib: "in_bounds v w" using assms(1) by (auto simp: insertNearLRU_def Let_def in_bounds_def split: if_splits)
  then show "in_bounds v w" .
  have v2: "v2 = (map (\<lambda>i. if int i = w then v ! i else v ! i + 1) [0..<length v])[nat w := 0]"
    using assms(1) by (auto simp: insertNearLRU_def Let_def split: if_splits)
  have k: "nat w < length v" "0 \<le> w" using ib by (auto simp: in_bounds_def)
  show "v2 ! i = (if i = nat w then 0 else v ! i + 1)"
    using assms(2) k by (auto simp: v2)
  show "r = 0" using assms(1) k by (auto simp: insertNearLRU_def Let_def split: if_splits)
qed

lemma insertNearLRU_then_normalize:
  assumes d: "dense v" and len: "length v < 2 ^ 31" and r: "insertNearLRU v w = Inr (v2, r)"
  shows "dense (normalize_vec v2)" and "normalize_vec v2 ! nat w = 0"
proof -
  let ?n = "length v" and ?k = "nat w"
  have l2: "length v2 = ?n" by (rule insertNearLRU_length [OF r])
  have "(2 :: nat) ^ 31 \<le> 2 ^ 64" by simp
  then have le: "length v2 \<le> 2 ^ 64" using len l2 by linarith
  show dn: "dense (normalize_vec v2)" by (rule normalize_vec_dense [OF le])
  have ib: "in_bounds v w" using r by (auto simp: insertNearLRU_def Let_def in_bounds_def split: if_splits)
  then have k: "?k < ?n" by (auto simp: in_bounds_def)
  have bv: "\<forall>x\<in>set v. unat x < ?n" using d by (simp add: dense_iff)
  have below: "\<And>j. j < ?n \<Longrightarrow> j \<noteq> ?k \<Longrightarrow> normalize_vec v2 ! ?k < normalize_vec v2 ! j"
  proof -
    fix j assume j: "j < ?n" and ne: "j \<noteq> ?k"
    have "unat (v ! j) < ?n" using bv j by simp
    then have "unat (v ! j) + unat (1 :: u64) < 2 ^ 64" using len by simp
    then have "unat (v ! j + 1) = unat (v ! j) + 1" by (simp add: unat_add_lem [THEN iffD1])
    then have "v ! j + 1 \<noteq> 0" by (metis Suc_eq_plus1 nat.distinct(1) unat_0)
    then have "v2 ! ?k < v2 ! j"
      using insertNearLRU_nth(1) [OF r j] insertNearLRU_nth(1) [OF r k] ne
      by (simp add: word_greater_zero_iff)
    then show "normalize_vec v2 ! ?k < normalize_vec v2 ! j"
      using normalize_vec_order [OF le, of ?k j] k j l2 by simp
  qed
  have "0 < ?n" using k by linarith
  then have "0 \<in> unat ` set (normalize_vec v2)"
    using dense_image [OF dn] by (simp add: normalize_vec_length l2)
  then obtain i where i: "i < ?n" "unat (normalize_vec v2 ! i) = 0"
    by (auto simp: in_set_conv_nth normalize_vec_length l2)
  have "i = ?k"
  proof (rule ccontr)
    assume "i \<noteq> ?k"
    then have "normalize_vec v2 ! ?k < normalize_vec v2 ! i" using below i(1) by simp
    then show False using i(2) by (simp add: word_less_nat_alt)
  qed
  then show "normalize_vec v2 ! ?k = 0" using i(2) by (simp add: unat_eq_0)
qed

section \<open>Lifecycle operations\<close>

text \<open>
  C9. \<^verbatim>\<open>invalidate\<close> sets the record's \<^verbatim>\<open>valid\<close> to false and its \<^verbatim>\<open>age\<close> to 0; the
  record's \<^verbatim>\<open>set\<close> and \<^verbatim>\<open>way\<close> and the whole engine (Age Table, schedule and cursor)
  are as before the call.
\<close>

theorem invalidate_frame:
  "fst (invalidate st d) = st \<and>
   valid (snd (invalidate st d)) = False \<and> age (snd (invalidate st d)) = 0 \<and>
   set_id (snd (invalidate st d)) = set_id d \<and> way (snd (invalidate st d)) = way d"
  by (simp add: invalidate_def)

section \<open>Victim selection\<close>

lemma sync_total:
  "nw \<le> int (length v) \<Longrightarrow> \<exists>v'. sync nw cs v = Inr v' \<and> length v' = length v"
proof (induction cs arbitrary: v)
  case Nil
  then show ?case by simp
next
  case (Cons e cs)
  show ?case
  proof (cases "0 \<le> sint (getWay e) \<and> sint (getWay e) < nw")
    case True
    then have "in_bounds v (sint (getWay e))" using Cons.prems by (simp add: in_bounds_def)
    moreover have "nw \<le> int (length (v[nat (sint (getWay e)) := age (replacementData e)]))"
      using Cons.prems by simp
    ultimately show ?thesis using True Cons.IH by fastforce
  next
    case False
    then show ?thesis using Cons.IH [OF Cons.prems] by (auto simp: Let_def)
  qed
qed

lemma sync_skips:
  "sync nw cs v = sync nw (filter (\<lambda>e. 0 \<le> sint (getWay e) \<and> sint (getWay e) < nw) cs) v"
  by (induction cs arbitrary: v) (simp_all add: Let_def)

lemma sync_untouched:
  "sync nw cs v = Inr v' \<Longrightarrow>
   \<forall>e\<in>set cs. 0 \<le> sint (getWay e) \<and> sint (getWay e) < nw \<longrightarrow> nat (sint (getWay e)) \<noteq> j \<Longrightarrow>
   v' ! j = v ! j"
proof (induction cs arbitrary: v)
  case Nil
  then show ?case by simp
next
  case (Cons e cs)
  show ?case
  proof (cases "0 \<le> sint (getWay e) \<and> sint (getWay e) < nw")
    case True
    then have ne: "nat (sint (getWay e)) \<noteq> j" using Cons.prems(2) by simp
    have s: "sync nw cs (v[nat (sint (getWay e)) := age (replacementData e)]) = Inr v'"
      using Cons.prems(1) True by (simp add: Let_def split: if_splits)
    have "v' ! j = (v[nat (sint (getWay e)) := age (replacementData e)]) ! j"
      using Cons.IH [OF s] Cons.prems(2) by simp
    then show ?thesis using ne by simp
  next
    case False
    then have "sync nw cs v = Inr v'" using Cons.prems(1) by (auto simp: Let_def)
    then show ?thesis using Cons.IH Cons.prems(2) by simp
  qed
qed

lemma ensureSet_fields:
  "numWays (ensureSet st s) = numWays st" "mruPct (ensureSet st s) = mruPct st"
  "quantum (ensureSet st s) = quantum st" "pv (ensureSet st s) = pv st"
  "insPos (ensureSet st s) = insPos st"
  by (simp_all add: ensureSet_def Let_def)

lemma ensureSet_other: "s' \<noteq> s \<Longrightarrow> setAges (ensureSet st s) s' = setAges st s'"
  by (simp add: ensureSet_def Let_def)

lemma ensureSet_Some: "setAges (ensureSet st s) s = Some (setAges_at (setAges (ensureSet st s)) s)"
  by (simp add: ensureSet_def Let_def setAges_at_def)

lemma ensureSet_long_enough:
  "sint (numWays st) \<le> int (length (setAges_at (setAges (ensureSet st s)) s))"
  by (simp add: ensureSet_def Let_def setAges_at_def)

lemma ensureSet_exact:
  "0 < sint (numWays st) \<Longrightarrow> length (setAges_at (setAges st) s) \<le> nat (sint (numWays st)) \<Longrightarrow>
   length (setAges_at (setAges (ensureSet st s)) s) = nat (sint (numWays st))"
  by (auto simp: ensureSet_def Let_def setAges_at_def)

lemma stamp_fields:
  "age (replacementData (stamp e)) = age (replacementData e)"
  "valid (replacementData (stamp e)) = True"
  "set_id (replacementData (stamp e)) = getSet e"
  "way (replacementData (stamp e)) = getWay e"
  "getSet (stamp e) = getSet e" "getWay (stamp e) = getWay e"
  by (simp_all add: stamp_def)

lemma scan_spec:
  "scan es i (k, m) = (k', m') \<Longrightarrow>
   (\<forall>e\<in>set es. m' \<le> age (replacementData e)) \<and> m' \<le> m \<and>
   ((k' = k \<and> m' = m \<and> (\<forall>e\<in>set es. m < age (replacementData e))) \<or>
    (i \<le> k' \<and> k' < i + length es \<and> age (replacementData (es ! (k' - i))) = m' \<and>
     (\<forall>j. k' - i < j \<and> j < length es \<longrightarrow> m' < age (replacementData (es ! j)))))"
proof (induction es arbitrary: i k m)
  case Nil
  then show ?case by simp
next
  case (Cons e es)
  let ?a = "age (replacementData e)"
  show ?case
  proof (cases "?a \<le> m")
    case True
    then have s: "scan es (Suc i) (i, ?a) = (k', m')" using Cons.prems by simp
    note IH = Cons.IH [OF s]
    from IH have le: "m' \<le> ?a" and all: "\<forall>e\<in>set es. m' \<le> age (replacementData e)" by simp_all
    from IH consider
      (same) "k' = i" "m' = ?a" "\<forall>e\<in>set es. ?a < age (replacementData e)"
    | (later) "Suc i \<le> k'" "k' < Suc i + length es" "age (replacementData (es ! (k' - Suc i))) = m'"
         "\<forall>j. k' - Suc i < j \<and> j < length es \<longrightarrow> m' < age (replacementData (es ! j))"
      by blast
    then show ?thesis
    proof cases
      case same
      have "\<forall>j. 0 < j \<and> j < length (e # es) \<longrightarrow> m' < age (replacementData ((e # es) ! j))"
        using same by (auto simp: nth_Cons')
      then show ?thesis using same True le all by simp
    next
      case later
      have idx: "k' - i = Suc (k' - Suc i)" using later(1) by simp
      have "\<forall>j. k' - i < j \<and> j < length (e # es) \<longrightarrow> m' < age (replacementData ((e # es) ! j))"
      proof (intro allI impI)
        fix j assume j: "k' - i < j \<and> j < length (e # es)"
        then obtain j' where j': "j = Suc j'" by (cases j) auto
        then have "k' - Suc i < j' \<and> j' < length es" using j idx by simp
        then show "m' < age (replacementData ((e # es) ! j))" using later(4) j' by simp
      qed
      moreover have "age (replacementData ((e # es) ! (k' - i))) = m'" using later(3) idx by simp
      moreover have "m' \<le> m" using le True by simp
      ultimately show ?thesis using later le all by simp
    qed
  next
    case False
    then have s: "scan es (Suc i) (k, m) = (k', m')" using Cons.prems by simp
    note IH = Cons.IH [OF s]
    from IH have le: "m' \<le> m" and all: "\<forall>e\<in>set es. m' \<le> age (replacementData e)" by simp_all
    have lt: "m < ?a" using False by simp
    from IH consider
      (same) "k' = k" "m' = m" "\<forall>e\<in>set es. m < age (replacementData e)"
    | (later) "Suc i \<le> k'" "k' < Suc i + length es" "age (replacementData (es ! (k' - Suc i))) = m'"
         "\<forall>j. k' - Suc i < j \<and> j < length es \<longrightarrow> m' < age (replacementData (es ! j))"
      by blast
    then show ?thesis
    proof cases
      case same
      then show ?thesis using lt le all by auto
    next
      case later
      have idx: "k' - i = Suc (k' - Suc i)" using later(1) by simp
      have "\<forall>j. k' - i < j \<and> j < length (e # es) \<longrightarrow> m' < age (replacementData ((e # es) ! j))"
      proof (intro allI impI)
        fix j assume j: "k' - i < j \<and> j < length (e # es)"
        then obtain j' where j': "j = Suc j'" by (cases j) auto
        then have "k' - Suc i < j' \<and> j' < length es" using j idx by simp
        then show "m' < age (replacementData ((e # es) ! j))" using later(4) j' by simp
      qed
      moreover have "age (replacementData ((e # es) ! (k' - i))) = m'" using later(3) idx by simp
      moreover have "m' \<le> ?a" using le lt by simp
      ultimately show ?thesis using later le all by simp
    qed
  qed
qed

lemma scan_last_minimum:
  assumes "es \<noteq> []"
  shows "fst (scan es 0 (0, - 1)) < length es \<and>
         (\<forall>j<length es. age (replacementData (es ! fst (scan es 0 (0, - 1)))) \<le> age (replacementData (es ! j))) \<and>
         (\<forall>j<length es. fst (scan es 0 (0, - 1)) < j \<longrightarrow>
             age (replacementData (es ! fst (scan es 0 (0, - 1)))) < age (replacementData (es ! j)))"
proof -
  obtain k' m' where r: "scan es 0 (0, - 1) = (k', m')" by (cases "scan es 0 (0, - 1)") auto
  note sp = scan_spec [OF r]
  obtain e where e: "e \<in> set es" using assms by (cases es) auto
  have "\<not> (\<forall>e\<in>set es. (- 1 :: u64) < age (replacementData e))"
    using e by (auto simp: not_less)
  with sp have k: "k' < length es" "age (replacementData (es ! k')) = m'"
      "\<forall>j. k' < j \<and> j < length es \<longrightarrow> m' < age (replacementData (es ! j))"
    by auto
  from sp have "\<forall>j<length es. m' \<le> age (replacementData (es ! j))" by simp
  then show ?thesis using k r by simp
qed

lemma getVictim_result:
  assumes "candidates \<noteq> []"
  shows "\<exists>v'. sync (sint (numWays st)) (map stamp candidates)
                  (setAges_at (setAges (ensureSet st (getSet (candidates ! 0)))) (getSet (candidates ! 0))) = Inr v' \<and>
              length v' = length (setAges_at (setAges (ensureSet st (getSet (candidates ! 0)))) (getSet (candidates ! 0))) \<and>
              getVictim st candidates =
                Inr ((ensureSet st (getSet (candidates ! 0)))
                       \<lparr>setAges := (setAges (ensureSet st (getSet (candidates ! 0))))
                                     (getSet (candidates ! 0) \<mapsto> normalize_vec v')\<rparr>,
                     map stamp candidates, fst (scan (map stamp candidates) 0 (0, - 1)))"
proof -
  let ?s = "getSet (candidates ! 0)"
  let ?st1 = "ensureSet st ?s"
  let ?v = "setAges_at (setAges ?st1) ?s"
  have "sint (numWays st) \<le> int (length ?v)" by (rule ensureSet_long_enough)
  then obtain v' where v': "sync (sint (numWays st)) (map stamp candidates) ?v = Inr v'"
      "length v' = length ?v"
    using sync_total by blast
  then show ?thesis using assms by (simp add: getVictim_def Let_def ensureSet_fields)
qed

lemma victim_position:
  assumes "candidates \<noteq> []"
  shows "fst (scan (map stamp candidates) 0 (0, - 1)) < length candidates"
    and "\<forall>j<length candidates.
           age (replacementData (candidates ! fst (scan (map stamp candidates) 0 (0, - 1))))
             \<le> age (replacementData (candidates ! j))"
    and "\<forall>j<length candidates. fst (scan (map stamp candidates) 0 (0, - 1)) < j \<longrightarrow>
           age (replacementData (candidates ! fst (scan (map stamp candidates) 0 (0, - 1))))
             < age (replacementData (candidates ! j))"
proof -
  let ?cs = "map stamp candidates"
  let ?k = "fst (scan ?cs 0 (0, - 1))"
  have ne: "?cs \<noteq> []" using assms by simp
  note sp = scan_last_minimum [OF ne]
  show k: "?k < length candidates" using sp by simp
  have ag: "\<And>j. j < length candidates \<Longrightarrow>
      age (replacementData (?cs ! j)) = age (replacementData (candidates ! j))"
    by (simp add: stamp_fields)
  show "\<forall>j<length candidates.
      age (replacementData (candidates ! ?k)) \<le> age (replacementData (candidates ! j))"
    using sp ag k by (metis length_map)
  show "\<forall>j<length candidates. ?k < j \<longrightarrow>
      age (replacementData (candidates ! ?k)) < age (replacementData (candidates ! j))"
    using sp ag k by (metis length_map)
qed

text \<open>
  C1. For a non-empty candidate list \<^verbatim>\<open>getVictim\<close> returns a candidate (position \<open>k\<close>)
  whose stored age is less than or equal to the stored age of every candidate of the
  call, and every candidate with that same age stands at or before \<open>k\<close>: among ties the
  last one in iteration order is returned.
\<close>

theorem getVictim_last_minimum:
  assumes "candidates \<noteq> []"
  shows "\<exists>st' cs k. getVictim st candidates = Inr (st', cs, k) \<and> k < length candidates \<and>
           (\<forall>j<length candidates.
              age (replacementData (candidates ! k)) \<le> age (replacementData (candidates ! j))) \<and>
           (\<forall>j<length candidates.
              age (replacementData (candidates ! j)) = age (replacementData (candidates ! k)) \<longrightarrow> j \<le> k)"
proof -
  let ?cs = "map stamp candidates"
  let ?k = "fst (scan ?cs 0 (0, - 1))"
  note vp = victim_position [OF assms]
  have last: "\<forall>j<length candidates.
      age (replacementData (candidates ! j)) = age (replacementData (candidates ! ?k)) \<longrightarrow> j \<le> ?k"
  proof (intro allI impI)
    fix j assume j: "j < length candidates"
      and eq: "age (replacementData (candidates ! j)) = age (replacementData (candidates ! ?k))"
    show "j \<le> ?k"
    proof (rule ccontr)
      assume "\<not> j \<le> ?k"
      then have "?k < j" by simp
      then show False using vp(3) j eq by auto
    qed
  qed
  obtain v' where "getVictim st candidates =
      Inr ((ensureSet st (getSet (candidates ! 0)))
             \<lparr>setAges := (setAges (ensureSet st (getSet (candidates ! 0))))
                           (getSet (candidates ! 0) \<mapsto> normalize_vec v')\<rparr>, ?cs, ?k)"
    using getVictim_result [OF assms] by blast
  then show ?thesis using vp(1,2) last by blast
qed

theorem getVictim_last_minimum_witness:
  "[\<lparr>getSet = 0, getWay = 0, replacementData = \<lparr>age = 3, valid = True, set_id = 0, way = 0\<rparr>\<rparr>,
    \<lparr>getSet = 0, getWay = 1, replacementData = \<lparr>age = 1, valid = True, set_id = 0, way = 1\<rparr>\<rparr>,
    \<lparr>getSet = 0, getWay = 2, replacementData = \<lparr>age = 1, valid = True, set_id = 0, way = 2\<rparr>\<rparr>,
    \<lparr>getSet = 0, getWay = 3, replacementData = \<lparr>age = 2, valid = True, set_id = 0, way = 3\<rparr>\<rparr>] \<noteq> [] \<and>
   (\<exists>st' cs k. getVictim \<lparr>numWays = 4, mruPct = 50, quantum = 2, pv = [1, 0], insPos = 0, setAges = Map.empty\<rparr>
      [\<lparr>getSet = 0, getWay = 0, replacementData = \<lparr>age = 3, valid = True, set_id = 0, way = 0\<rparr>\<rparr>,
       \<lparr>getSet = 0, getWay = 1, replacementData = \<lparr>age = 1, valid = True, set_id = 0, way = 1\<rparr>\<rparr>,
       \<lparr>getSet = 0, getWay = 2, replacementData = \<lparr>age = 1, valid = True, set_id = 0, way = 2\<rparr>\<rparr>,
       \<lparr>getSet = 0, getWay = 3, replacementData = \<lparr>age = 2, valid = True, set_id = 0, way = 3\<rparr>\<rparr>]
      = Inr (st', cs, k) \<and> k < 4) \<and>
   snd (snd (projr (getVictim \<lparr>numWays = 4, mruPct = 50, quantum = 2, pv = [1, 0], insPos = 0, setAges = Map.empty\<rparr>
      [\<lparr>getSet = 0, getWay = 0, replacementData = \<lparr>age = 3, valid = True, set_id = 0, way = 0\<rparr>\<rparr>,
       \<lparr>getSet = 0, getWay = 1, replacementData = \<lparr>age = 1, valid = True, set_id = 0, way = 1\<rparr>\<rparr>,
       \<lparr>getSet = 0, getWay = 2, replacementData = \<lparr>age = 1, valid = True, set_id = 0, way = 2\<rparr>\<rparr>,
       \<lparr>getSet = 0, getWay = 3, replacementData = \<lparr>age = 2, valid = True, set_id = 0, way = 3\<rparr>\<rparr>])))
     = 2"
proof -
  let ?cs = "[\<lparr>getSet = 0, getWay = 0, replacementData = \<lparr>age = 3, valid = True, set_id = 0, way = 0\<rparr>\<rparr>,
    \<lparr>getSet = 0, getWay = 1, replacementData = \<lparr>age = 1, valid = True, set_id = 0, way = 1\<rparr>\<rparr>,
    \<lparr>getSet = 0, getWay = 2, replacementData = \<lparr>age = 1, valid = True, set_id = 0, way = 2\<rparr>\<rparr>,
    \<lparr>getSet = 0, getWay = 3, replacementData = \<lparr>age = 2, valid = True, set_id = 0, way = 3\<rparr>\<rparr>]"
  let ?st = "\<lparr>numWays = 4, mruPct = 50, quantum = 2, pv = [1, 0], insPos = 0, setAges = Map.empty\<rparr>"
  have h: "?cs \<noteq> []" by simp
  have e: "snd (snd (projr (getVictim ?st ?cs))) = 2" by code_simp
  from getVictim_last_minimum [OF h, of ?st] h e show ?thesis by auto
qed

text \<open>
  C2, as stated, fails: the first loop of \<^verbatim>\<open>getVictim\<close> executes \<^verbatim>\<open>d->valid = true\<close>. A
  candidate whose record has \<^verbatim>\<open>valid = false\<close> (a freshly instantiated record) leaves the
  call with \<^verbatim>\<open>valid = true\<close>.
\<close>

theorem getVictim_valid_counterexample:
  "\<not> isl (getVictim \<lparr>numWays = 4, mruPct = 50, quantum = 2, pv = [1, 0], insPos = 0, setAges = Map.empty\<rparr>
      [\<lparr>getSet = 0, getWay = 0, replacementData = \<lparr>age = 0, valid = False, set_id = 0, way = 0\<rparr>\<rparr>]) \<and>
   map (valid \<circ> replacementData)
     (fst (snd (projr (getVictim \<lparr>numWays = 4, mruPct = 50, quantum = 2, pv = [1, 0], insPos = 0, setAges = Map.empty\<rparr>
      [\<lparr>getSet = 0, getWay = 0, replacementData = \<lparr>age = 0, valid = False, set_id = 0, way = 0\<rparr>\<rparr>]))))
     = [True] \<and>
   map (valid \<circ> replacementData)
      [\<lparr>getSet = 0, getWay = 0, replacementData = \<lparr>age = 0, valid = False, set_id = 0, way = 0\<rparr>\<rparr>]
     = [False]"
  by code_simp

text \<open>
  C2, amended. For a non-empty candidate list \<^verbatim>\<open>getVictim\<close> leaves the \<^verbatim>\<open>age\<close> of every
  candidate's record unchanged, writes the entry's own set and way into the record's
  \<^verbatim>\<open>set\<close> and \<^verbatim>\<open>way\<close> and sets the record's \<^verbatim>\<open>valid\<close> to true; in the engine only the
  Age Table vector of the candidates' set can change.
\<close>

theorem getVictim_records:
  assumes "candidates \<noteq> []"
  shows "\<exists>st' cs k. getVictim st candidates = Inr (st', cs, k) \<and> length cs = length candidates \<and>
           (\<forall>j<length candidates.
              age (replacementData (cs ! j)) = age (replacementData (candidates ! j)) \<and>
              valid (replacementData (cs ! j)) = True \<and>
              set_id (replacementData (cs ! j)) = getSet (candidates ! j) \<and>
              way (replacementData (cs ! j)) = getWay (candidates ! j) \<and>
              getSet (cs ! j) = getSet (candidates ! j) \<and> getWay (cs ! j) = getWay (candidates ! j)) \<and>
           numWays st' = numWays st \<and> mruPct st' = mruPct st \<and> quantum st' = quantum st \<and>
           pv st' = pv st \<and> insPos st' = insPos st \<and>
           (\<forall>s. s \<noteq> getSet (candidates ! 0) \<longrightarrow> setAges st' s = setAges st s)"
proof -
  obtain v' where r: "getVictim st candidates =
      Inr ((ensureSet st (getSet (candidates ! 0)))
             \<lparr>setAges := (setAges (ensureSet st (getSet (candidates ! 0))))
                           (getSet (candidates ! 0) \<mapsto> normalize_vec v')\<rparr>,
           map stamp candidates, fst (scan (map stamp candidates) 0 (0, - 1)))"
    using getVictim_result [OF assms] by blast
  show ?thesis
    unfolding r by (simp add: stamp_fields ensureSet_fields ensureSet_other)
qed

theorem getVictim_records_witness:
  "[\<lparr>getSet = 0, getWay = 0, replacementData = \<lparr>age = 0, valid = False, set_id = 0, way = 0\<rparr>\<rparr>] \<noteq> [] \<and>
   (\<exists>st' cs k. getVictim \<lparr>numWays = 4, mruPct = 50, quantum = 2, pv = [1, 0], insPos = 0, setAges = Map.empty\<rparr>
      [\<lparr>getSet = 0, getWay = 0, replacementData = \<lparr>age = 0, valid = False, set_id = 0, way = 0\<rparr>\<rparr>] = Inr (st', cs, k) \<and>
      length cs = 1 \<and> age (replacementData (cs ! 0)) = 0 \<and> valid (replacementData (cs ! 0)) = True \<and>
      insPos st' = 0)"
proof -
  let ?cs = "[\<lparr>getSet = 0, getWay = 0, replacementData = \<lparr>age = 0, valid = False, set_id = 0, way = 0\<rparr>\<rparr>]"
  let ?st = "\<lparr>numWays = 4, mruPct = 50, quantum = 2, pv = [1, 0], insPos = 0, setAges = Map.empty\<rparr>"
  have h: "?cs \<noteq> []" by simp
  from getVictim_records [OF h, of ?st] h show ?thesis by auto
qed

text \<open>
  C10. \<^verbatim>\<open>getVictim\<close> on a non-empty list never indexes the vector out of bounds (it
  returns a result). The synchronised vector \<open>v'\<close> is the one obtained from the
  candidates whose way lies in \<open>0..numWays-1\<close> alone, every slot that is not the way of
  such a candidate keeps its value, and the Age Table is \<^verbatim>\<open>normalize\<close> of \<open>v'\<close>: a candidate
  whose way is out of range writes nothing. The scan does not look at the way: a
  candidate whose age is strictly below every other candidate's is the victim, whatever
  its way.
\<close>

theorem getVictim_sync_guard:
  assumes "candidates \<noteq> []"
  shows "\<exists>st' cs k v'.
           getVictim st candidates = Inr (st', cs, k) \<and>
           sync (sint (numWays st))
             (filter (\<lambda>e. 0 \<le> sint (getWay e) \<and> sint (getWay e) < sint (numWays st)) cs)
             (setAges_at (setAges (ensureSet st (getSet (candidates ! 0)))) (getSet (candidates ! 0))) = Inr v' \<and>
           setAges st' (getSet (candidates ! 0)) = Some (normalize_vec v') \<and>
           (\<forall>j. (\<forall>e\<in>set candidates. 0 \<le> sint (getWay e) \<and> sint (getWay e) < sint (numWays st) \<longrightarrow>
                    nat (sint (getWay e)) \<noteq> j) \<longrightarrow>
                v' ! j = setAges_at (setAges (ensureSet st (getSet (candidates ! 0)))) (getSet (candidates ! 0)) ! j) \<and>
           (\<forall>i<length candidates.
              (\<forall>j<length candidates. j \<noteq> i \<longrightarrow>
                 age (replacementData (candidates ! i)) < age (replacementData (candidates ! j))) \<longrightarrow> k = i)"
proof -
  let ?s = "getSet (candidates ! 0)"
  let ?v = "setAges_at (setAges (ensureSet st ?s)) ?s"
  let ?cs = "map stamp candidates"
  let ?k = "fst (scan ?cs 0 (0, - 1))"
  obtain v' where v': "sync (sint (numWays st)) ?cs ?v = Inr v'"
    and r: "getVictim st candidates =
      Inr ((ensureSet st ?s)\<lparr>setAges := (setAges (ensureSet st ?s))(?s \<mapsto> normalize_vec v')\<rparr>, ?cs, ?k)"
    using getVictim_result [OF assms] by blast
  have f: "sync (sint (numWays st))
             (filter (\<lambda>e. 0 \<le> sint (getWay e) \<and> sint (getWay e) < sint (numWays st)) ?cs) ?v = Inr v'"
    using v' sync_skips [of "sint (numWays st)" ?cs ?v] by simp
  have u: "\<forall>j. (\<forall>e\<in>set candidates. 0 \<le> sint (getWay e) \<and> sint (getWay e) < sint (numWays st) \<longrightarrow>
                    nat (sint (getWay e)) \<noteq> j) \<longrightarrow> v' ! j = ?v ! j"
  proof (intro allI impI)
    fix j
    assume a: "\<forall>e\<in>set candidates. 0 \<le> sint (getWay e) \<and> sint (getWay e) < sint (numWays st) \<longrightarrow>
                    nat (sint (getWay e)) \<noteq> j"
    have "\<forall>e\<in>set ?cs. 0 \<le> sint (getWay e) \<and> sint (getWay e) < sint (numWays st) \<longrightarrow>
                    nat (sint (getWay e)) \<noteq> j"
      using a by (auto simp: stamp_fields)
    then show "v' ! j = ?v ! j" by (rule sync_untouched [OF v'])
  qed
  note vp = victim_position [OF assms]
  have e: "\<forall>i<length candidates.
              (\<forall>j<length candidates. j \<noteq> i \<longrightarrow>
                 age (replacementData (candidates ! i)) < age (replacementData (candidates ! j))) \<longrightarrow> ?k = i"
  proof (intro allI impI)
    fix i assume i: "i < length candidates"
      and m: "\<forall>j<length candidates. j \<noteq> i \<longrightarrow>
                 age (replacementData (candidates ! i)) < age (replacementData (candidates ! j))"
    have "age (replacementData (candidates ! ?k)) \<le> age (replacementData (candidates ! i))"
      using vp(2) i by simp
    then show "?k = i" using m vp(1) by (auto simp: not_less [symmetric])
  qed
  show ?thesis
    using r f u e by (simp add: ensureSet_fields)
qed

section \<open>Invariants of reachable engines\<close>

lemma sint_word_of_int_32:
  "- (2 ^ 31) \<le> x \<Longrightarrow> x < 2 ^ 31 \<Longrightarrow> sint (word_of_int x :: cint) = x"
  by (simp add: sint_sbintrunc' signed_take_bit_int_eq_self)

lemma sint_32_range: "- (2 ^ 31) \<le> sint (x :: cint)" "sint (x :: cint) < 2 ^ 31"
  using sint_ge [of x] sint_lt [of x] by simp_all

lemma checked_Inr: "checked x = Inr y \<Longrightarrow> sint y = x \<and> - (2 ^ 31) \<le> x \<and> x < 2 ^ 31"
  by (auto simp: checked_def sint_word_of_int_32 split: if_splits)

lemma pattern_fold:
  "k \<le> n \<Longrightarrow> fold (\<lambda>i pv'. pv'[i := 1]) [0..<k] (replicate n (0 :: cint))
                = replicate k 1 @ replicate (n - k) 0"
proof (induction k)
  case 0
  then show ?case by simp
next
  case (Suc k)
  then have IH: "fold (\<lambda>i pv'. pv'[i := 1]) [0..<k] (replicate n (0 :: cint))
                = replicate k 1 @ replicate (n - k) 0" by simp
  have "n - k = Suc (n - Suc k)" using Suc.prems by simp
  then have "(replicate k (1 :: cint) @ replicate (n - k) 0)[k := 1]
               = replicate k 1 @ (1 # replicate (n - Suc k) 0)"
    by (simp add: list_update_append)
  also have "\<dots> = replicate (Suc k) 1 @ replicate (n - Suc k) 0"
    by (simp add: replicate_append_same)
  finally show ?case using IH by simp
qed

lemma mru_count_of_bounds: "0 \<le> q \<Longrightarrow> 0 \<le> mru_count_of q x \<and> mru_count_of q x \<le> q"
  by (simp add: mru_count_of_def)

lemma ctor_fields:
  assumes "LRUIPVRP_ctor p = Inr st"
  shows "numWays st = p_numWays p" "mruPct st = p_mru_pct p"
    "sint (quantum st) = max 1 (sint (p_quantum p))" "insPos st = 0" "setAges st = Map.empty"
    "0 < sint (p_numWays p)"
    "- (2 ^ 31) \<le> max 1 (sint (p_quantum p)) * sint (p_mru_pct p)"
    "max 1 (sint (p_quantum p)) * sint (p_mru_pct p) < 2 ^ 31"
    "pv st = replicate (nat (mru_count_of (max 1 (sint (p_quantum p))) (max 1 (sint (p_quantum p)) * sint (p_mru_pct p)))) 1 @
             replicate (nat (max 1 (sint (p_quantum p)) - mru_count_of (max 1 (sint (p_quantum p))) (max 1 (sint (p_quantum p)) * sint (p_mru_pct p)))) 0"
proof -
  let ?q = "max 1 (sint (p_quantum p))"
  let ?x = "?q * sint (p_mru_pct p)"
  have nw: "\<not> sint (p_numWays p) \<le> 0" using assms by (auto simp: LRUIPVRP_ctor_def Let_def)
  then obtain qm where qm: "checked ?x = Inr qm"
    using assms by (auto simp: LRUIPVRP_ctor_def Let_def split: sum.splits)
  then have sx: "sint qm = ?x" and r1: "- (2 ^ 31) \<le> ?x" and r2: "?x < 2 ^ 31"
    using checked_Inr by blast+
  have st: "st = \<lparr>numWays = p_numWays p, mruPct = p_mru_pct p, quantum = word_of_int ?q,
                  pv = fold (\<lambda>i pv'. pv'[i := 1]) [0..<nat (mru_count_of ?q ?x)] (replicate (nat ?q) 0),
                  insPos = 0, setAges = Map.empty\<rparr>"
    using assms nw qm sx by (simp add: LRUIPVRP_ctor_def Let_def)
  have qr: "?q < 2 ^ 31" using sint_32_range(2) [of "p_quantum p"] by simp
  have sq: "sint (word_of_int ?q :: cint) = ?q"
    by (rule sint_word_of_int_32) (use qr in simp_all)
  have q0: "0 \<le> ?q" by simp
  have mb: "0 \<le> mru_count_of ?q ?x" "mru_count_of ?q ?x \<le> ?q"
    using mru_count_of_bounds [OF q0, of ?x] by blast+
  have b: "nat (mru_count_of ?q ?x) \<le> nat ?q" using mb(2) by (rule nat_mono)
  have d: "nat ?q - nat (mru_count_of ?q ?x) = nat (?q - mru_count_of ?q ?x)"
    using mb by linarith
  show "numWays st = p_numWays p" "mruPct st = p_mru_pct p" "insPos st = 0" "setAges st = Map.empty"
    by (simp_all add: st)
  show "sint (quantum st) = ?q" using sq by (simp add: st)
  show "0 < sint (p_numWays p)" using nw by simp
  show "- (2 ^ 31) \<le> ?x" "?x < 2 ^ 31" using r1 r2 by simp_all
  show "pv st = replicate (nat (mru_count_of ?q ?x)) 1 @ replicate (nat (?q - mru_count_of ?q ?x)) 0"
    using pattern_fold [OF b] d by (simp add: st)
qed

lemma ctor_inv:
  assumes "LRUIPVRP_ctor p = Inr st"
  shows "tables_ok st" "schedule_ok st"
proof -
  note f = ctor_fields [OF assms]
  show "tables_ok st" using f(1,5,6) by (simp add: tables_ok_def)
  show "schedule_ok st" using f(2,3,4,7,8,9) by (simp add: schedule_ok_def Let_def)
qed

lemma tables_ok_ensureSet:
  assumes "tables_ok st"
  shows "tables_ok (ensureSet st s)"
    and "length (setAges_at (setAges (ensureSet st s)) s) = nat (sint (numWays st))"
proof -
  have pos: "0 < sint (numWays st)"
    and len: "\<And>s v. setAges st s = Some v \<Longrightarrow> length v = nat (sint (numWays st))"
    using assms by (auto simp: tables_ok_def)
  have le: "length (setAges_at (setAges st) s) \<le> nat (sint (numWays st))"
    using len [of s] by (auto simp: setAges_at_def split: option.splits)
  show ex: "length (setAges_at (setAges (ensureSet st s)) s) = nat (sint (numWays st))"
    by (rule ensureSet_exact [OF pos le])
  show "tables_ok (ensureSet st s)"
    unfolding tables_ok_def
  proof (intro conjI allI impI)
    show "0 < sint (numWays (ensureSet st s))" using pos by (simp add: ensureSet_fields)
  next
    fix s' v assume a: "setAges (ensureSet st s) s' = Some v"
    show "length v = nat (sint (numWays (ensureSet st s)))"
    proof (cases "s' = s")
      case True
      then have "v = setAges_at (setAges (ensureSet st s)) s" using a by (simp add: setAges_at_def)
      then show ?thesis using ex by (simp add: ensureSet_fields)
    next
      case False
      then show ?thesis using a len [of s' v] by (simp add: ensureSet_other ensureSet_fields)
    qed
  qed
qed

lemma tables_ok_update:
  "tables_ok st \<Longrightarrow> length v = nat (sint (numWays st)) \<Longrightarrow> numWays st' = numWays st \<Longrightarrow>
   setAges st' = (setAges st)(s \<mapsto> v) \<Longrightarrow> tables_ok st'"
  by (auto simp: tables_ok_def)

lemma schedule_ok_cong:
  "schedule_ok st \<Longrightarrow> quantum st' = quantum st \<Longrightarrow> mruPct st' = mruPct st \<Longrightarrow>
   pv st' = pv st \<Longrightarrow> insPos st' = insPos st \<Longrightarrow> schedule_ok st'"
  by (simp add: schedule_ok_def)

lemma touch_result:
  assumes "touch st d = Inr (st', d')"
  shows "\<exists>v' r. promoteToMRU (setAges_at (setAges (ensureSet st (set_id d))) (set_id d)) (sint (way d)) = Inr (v', r) \<and>
           st' = (ensureSet st (set_id d))\<lparr>setAges := (setAges (ensureSet st (set_id d)))(set_id d \<mapsto> v')\<rparr> \<and>
           d' = d\<lparr>age := v' ! nat (sint (way d)), valid := True\<rparr>"
  using assms by (auto simp: touch_def Let_def split: sum.splits)

lemma reset_result:
  assumes "reset st d = Inr (st', d')"
  shows "\<exists>b st2 v' r. insertMRU (ensureSet st (set_id d)) = Inr b \<and>
           advance (ensureSet st (set_id d)) = Inr st2 \<and>
           (if b then promoteToMRU (setAges_at (setAges (ensureSet st (set_id d))) (set_id d)) (sint (way d))
            else insertNearLRU (setAges_at (setAges (ensureSet st (set_id d))) (set_id d)) (sint (way d))) = Inr (v', r) \<and>
           st' = st2\<lparr>setAges := (setAges st2)(set_id d \<mapsto> v')\<rparr> \<and>
           d' = d\<lparr>age := r, valid := True\<rparr>"
  using assms by (auto simp: reset_def Let_def split: sum.splits)

lemma advance_result:
  assumes "advance st = Inr st2"
  shows "st2 = st\<lparr>insPos := word_of_int ((sint (insPos st) + 1) smod sint (quantum st))\<rparr>"
    and "sint (quantum st) \<noteq> 0"
proof -
  obtain n where n: "checked (sint (insPos st) + 1) = Inr n"
    using assms by (auto simp: advance_def split: sum.splits)
  then have "sint n = sint (insPos st) + 1" using checked_Inr by blast
  then show "st2 = st\<lparr>insPos := word_of_int ((sint (insPos st) + 1) smod sint (quantum st))\<rparr>"
    using assms n by (auto simp: advance_def split: if_splits)
  show "sint (quantum st) \<noteq> 0" using assms n by (auto simp: advance_def split: if_splits)
qed

lemma smod_pos: "0 \<le> a \<Longrightarrow> 0 < b \<Longrightarrow> (a :: int) smod b = a mod b"
  by (cases "a = 0") (simp_all add: smod_int_alt_def)

lemma advance_schedule_ok:
  assumes "schedule_ok st"
  shows "\<exists>st2. advance st = Inr st2 \<and>
           st2 = st\<lparr>insPos := word_of_int ((sint (insPos st) + 1) mod sint (quantum st))\<rparr> \<and>
           sint (insPos st2) = (sint (insPos st) + 1) mod sint (quantum st) \<and> schedule_ok st2"
proof -
  let ?q = "sint (quantum st)" and ?c = "sint (insPos st)"
  have q: "1 \<le> ?q" and c: "0 \<le> ?c" "?c < ?q" using assms by (simp_all add: schedule_ok_def Let_def)
  have qr: "?q < 2 ^ 31" by (rule sint_32_range)
  have c1: "- (2 ^ 31) \<le> ?c + 1" "?c + 1 < 2 ^ 31" using c qr by simp_all
  then have ch: "checked (?c + 1) = Inr (word_of_int (?c + 1))" by (simp add: checked_def)
  have s1: "sint (word_of_int (?c + 1) :: cint) = ?c + 1" using c1 by (rule sint_word_of_int_32)
  have sm: "(?c + 1) smod ?q = (?c + 1) mod ?q" using c q by (intro smod_pos) simp_all
  let ?n = "(?c + 1) mod ?q"
  have nr: "0 \<le> ?n" "?n < ?q" using q by simp_all
  then have sn: "sint (word_of_int ?n :: cint) = ?n" using qr by (intro sint_word_of_int_32) simp_all
  have adv: "advance st = Inr (st\<lparr>insPos := word_of_int ?n\<rparr>)"
    using ch s1 sm q by (simp add: advance_def)
  moreover have "schedule_ok (st\<lparr>insPos := word_of_int ?n\<rparr>)"
    using assms nr sn by (simp add: schedule_ok_def Let_def)
  ultimately show ?thesis using sn by simp
qed

lemma insertMRU_schedule_ok:
  assumes "schedule_ok st"
  shows "insertMRU st = Inr (sint (insPos st) <
            mru_count_of (sint (quantum st)) (sint (quantum st) * sint (mruPct st)))"
proof -
  let ?q = "sint (quantum st)" and ?c = "sint (insPos st)"
  let ?mc = "mru_count_of ?q (?q * sint (mruPct st))"
  have q: "1 \<le> ?q" and c: "0 \<le> ?c" "?c < ?q"
    and pv: "pv st = replicate (nat ?mc) 1 @ replicate (nat (?q - ?mc)) 0"
    using assms by (simp_all add: schedule_ok_def Let_def)
  have mb: "0 \<le> ?mc" "?mc \<le> ?q" using mru_count_of_bounds [of ?q] q by simp_all
  have len: "length (pv st) = nat ?q" using pv mb by simp
  then have ib: "in_bounds (pv st) ?c" using c by (simp add: in_bounds_def)
  have "(pv st ! nat ?c = 1) = (?c < ?mc)"
  proof (cases "?c < ?mc")
    case True
    then have "nat ?c < nat ?mc" using c by simp
    then show ?thesis using True by (simp add: pv nth_append)
  next
    case False
    then have a: "\<not> nat ?c < nat ?mc" using mb by simp
    have "nat ?c - nat ?mc < nat (?q - ?mc)" using c mb False by linarith
    then show ?thesis using False a by (simp add: pv nth_append)
  qed
  then show ?thesis using ib by (simp add: insertMRU_def)
qed

lemma touch_inv:
  assumes "touch st d = Inr (st', d')"
  shows "tables_ok st \<Longrightarrow> tables_ok st'" and "schedule_ok st \<Longrightarrow> schedule_ok st'"
proof -
  let ?s = "set_id d"
  let ?st1 = "ensureSet st ?s"
  obtain v' r where p: "promoteToMRU (setAges_at (setAges ?st1) ?s) (sint (way d)) = Inr (v', r)"
    and st': "st' = ?st1\<lparr>setAges := (setAges ?st1)(?s \<mapsto> v')\<rparr>"
    using touch_result [OF assms] by blast
  show "tables_ok st'" if t: "tables_ok st"
  proof -
    have "length v' = nat (sint (numWays ?st1))"
      using promoteToMRU_length [OF p] tables_ok_ensureSet(2) [OF t, of ?s] by (simp add: ensureSet_fields)
    then show ?thesis
      using tables_ok_update [OF tables_ok_ensureSet(1) [OF t, of ?s], of v' st' ?s] st' by simp
  qed
  show "schedule_ok st'" if "schedule_ok st"
    using that by (rule schedule_ok_cong) (simp_all add: st' ensureSet_fields)
qed

lemma reset_inv:
  assumes "reset st d = Inr (st', d')"
  shows "tables_ok st \<Longrightarrow> tables_ok st'" and "schedule_ok st \<Longrightarrow> schedule_ok st'"
proof -
  let ?s = "set_id d"
  let ?st1 = "ensureSet st ?s"
  let ?v = "setAges_at (setAges ?st1) ?s"
  obtain b st2 v' r where adv: "advance ?st1 = Inr st2"
    and p: "(if b then promoteToMRU ?v (sint (way d)) else insertNearLRU ?v (sint (way d))) = Inr (v', r)"
    and st': "st' = st2\<lparr>setAges := (setAges st2)(?s \<mapsto> v')\<rparr>"
    using reset_result [OF assms] by blast
  have st2: "st2 = ?st1\<lparr>insPos := word_of_int ((sint (insPos ?st1) + 1) smod sint (quantum ?st1))\<rparr>"
    by (rule advance_result(1) [OF adv])
  have lv: "length v' = length ?v"
    using p promoteToMRU_length insertNearLRU_length by (cases b) auto
  show "tables_ok st'" if t: "tables_ok st"
  proof -
    have "length v' = nat (sint (numWays ?st1))"
      using lv tables_ok_ensureSet(2) [OF t, of ?s] by (simp add: ensureSet_fields)
    then show ?thesis
      using tables_ok_update [OF tables_ok_ensureSet(1) [OF t, of ?s], of v' st' ?s] st' st2 by simp
  qed
  show "schedule_ok st'" if s: "schedule_ok st"
  proof -
    have "schedule_ok ?st1" using s by (rule schedule_ok_cong) (simp_all add: ensureSet_fields)
    then have "schedule_ok st2" using advance_schedule_ok adv by fastforce
    then show ?thesis by (rule schedule_ok_cong) (simp_all add: st')
  qed
qed

lemma getVictim_inv:
  assumes "getVictim st cs = Inr (st', cs', k)"
  shows "tables_ok st \<Longrightarrow> tables_ok st'" and "schedule_ok st \<Longrightarrow> schedule_ok st'"
proof -
  have ne: "cs \<noteq> []" using assms by (auto simp: getVictim_def)
  let ?s = "getSet (cs ! 0)"
  let ?st1 = "ensureSet st ?s"
  obtain v' where lv: "length v' = length (setAges_at (setAges ?st1) ?s)"
    and r: "getVictim st cs = Inr (?st1\<lparr>setAges := (setAges ?st1)(?s \<mapsto> normalize_vec v')\<rparr>,
              map stamp cs, fst (scan (map stamp cs) 0 (0, - 1)))"
    using getVictim_result [OF ne, of st] by blast
  have st': "st' = ?st1\<lparr>setAges := (setAges ?st1)(?s \<mapsto> normalize_vec v')\<rparr>"
    using assms r by simp
  show "tables_ok st'" if t: "tables_ok st"
  proof -
    have "length (normalize_vec v') = nat (sint (numWays ?st1))"
      using lv tables_ok_ensureSet(2) [OF t, of ?s] by (simp add: ensureSet_fields normalize_vec_length)
    then show ?thesis
      using tables_ok_update [OF tables_ok_ensureSet(1) [OF t, of ?s], of "normalize_vec v'" st' ?s] st'
      by simp
  qed
  show "schedule_ok st'" if "schedule_ok st"
    using that by (rule schedule_ok_cong) (simp_all add: st' ensureSet_fields)
qed

lemma reachable_inv: "reachable st \<Longrightarrow> tables_ok st \<and> schedule_ok st"
proof (induction rule: reachable.induct)
  case (r_ctor p st)
  then show ?case using ctor_inv by blast
next
  case (r_touch st d st' d')
  then show ?case using touch_inv by blast
next
  case (r_reset st d st' d')
  then show ?case using reset_inv by blast
next
  case (r_getVictim st cs st' cs' k)
  then show ?case using getVictim_inv by blast
qed

text \<open>
  C5. In every engine a host can hold, after \<^verbatim>\<open>getVictim\<close> on a non-empty candidate
  list, whatever the candidates' ages and the previous contents of the vector, the Age
  Table vector of the candidates' set has \<^verbatim>\<open>numWays\<close> slots and holds exactly the values
  \<open>0, ..., numWays-1\<close>, each once.
\<close>

theorem getVictim_table_dense:
  assumes "reachable st" and "candidates \<noteq> []"
  shows "\<exists>st' cs k vec. getVictim st candidates = Inr (st', cs, k) \<and>
           setAges st' (getSet (candidates ! 0)) = Some vec \<and>
           length vec = nat (sint (numWays st)) \<and> dense vec \<and>
           sort (map unat vec) = [0..<nat (sint (numWays st))]"
proof -
  let ?s = "getSet (candidates ! 0)"
  let ?st1 = "ensureSet st ?s"
  have t: "tables_ok st" using reachable_inv [OF assms(1)] by simp
  obtain v' where lv: "length v' = length (setAges_at (setAges ?st1) ?s)"
    and r: "getVictim st candidates = Inr (?st1\<lparr>setAges := (setAges ?st1)(?s \<mapsto> normalize_vec v')\<rparr>,
              map stamp candidates, fst (scan (map stamp candidates) 0 (0, - 1)))"
    using getVictim_result [OF assms(2), of st] by blast
  have len: "length v' = nat (sint (numWays st))"
    using lv tables_ok_ensureSet(2) [OF t, of ?s] by simp
  have "sint (numWays st) < 2 ^ 31" by (rule sint_32_range)
  then have "nat (sint (numWays st)) < 2 ^ 31" by simp
  moreover have "(2 :: nat) ^ 31 \<le> 2 ^ 64" by simp
  ultimately have "length v' \<le> 2 ^ 64" using len by linarith
  then have d: "dense (normalize_vec v')" by (rule normalize_vec_dense)
  then have "sort (map unat (normalize_vec v')) = [0..<nat (sint (numWays st))]"
    using len by (simp add: dense_def normalize_vec_length)
  then show ?thesis using r d len by (simp add: normalize_vec_length)
qed

lemma ctor_example:
  "LRUIPVRP_ctor \<lparr>p_numWays = 4, p_mru_pct = 50, p_quantum = 2\<rparr> =
     Inr \<lparr>numWays = 4, mruPct = 50, quantum = 2, pv = [1, 0], insPos = 0, setAges = Map.empty\<rparr>"
  by (simp add: LRUIPVRP_ctor_def checked_def mru_count_of_def Let_def signed_divide_int_def numeral_2_eq_2)

text \<open>
  An instance: two candidates of set 7 with equal ages, on a fresh engine of four ways.
\<close>

theorem getVictim_table_dense_witness:
  "reachable \<lparr>numWays = 4, mruPct = 50, quantum = 2, pv = [1, 0], insPos = 0, setAges = Map.empty\<rparr> \<and>
   [\<lparr>getSet = 7, getWay = 0, replacementData = \<lparr>age = 9, valid = True, set_id = 7, way = 0\<rparr>\<rparr>,
    \<lparr>getSet = 7, getWay = 2, replacementData = \<lparr>age = 9, valid = True, set_id = 7, way = 2\<rparr>\<rparr>] \<noteq> [] \<and>
   (\<exists>st' cs k vec.
      getVictim \<lparr>numWays = 4, mruPct = 50, quantum = 2, pv = [1, 0], insPos = 0, setAges = Map.empty\<rparr>
        [\<lparr>getSet = 7, getWay = 0, replacementData = \<lparr>age = 9, valid = True, set_id = 7, way = 0\<rparr>\<rparr>,
         \<lparr>getSet = 7, getWay = 2, replacementData = \<lparr>age = 9, valid = True, set_id = 7, way = 2\<rparr>\<rparr>]
        = Inr (st', cs, k) \<and>
      setAges st' 7 = Some vec \<and> dense vec) \<and>
   setAges (fst (projr (getVictim \<lparr>numWays = 4, mruPct = 50, quantum = 2, pv = [1, 0], insPos = 0, setAges = Map.empty\<rparr>
        [\<lparr>getSet = 7, getWay = 0, replacementData = \<lparr>age = 9, valid = True, set_id = 7, way = 0\<rparr>\<rparr>,
         \<lparr>getSet = 7, getWay = 2, replacementData = \<lparr>age = 9, valid = True, set_id = 7, way = 2\<rparr>\<rparr>]))) 7
     = Some [2, 0, 3, 1]"
proof -
  let ?st = "\<lparr>numWays = 4, mruPct = 50, quantum = 2, pv = [1, 0], insPos = 0, setAges = Map.empty\<rparr>"
  let ?cs = "[\<lparr>getSet = 7, getWay = 0, replacementData = \<lparr>age = 9, valid = True, set_id = 7, way = 0\<rparr>\<rparr>,
    \<lparr>getSet = 7, getWay = 2, replacementData = \<lparr>age = 9, valid = True, set_id = 7, way = 2\<rparr>\<rparr>]"
  have h1: "reachable ?st" using ctor_example by (rule r_ctor)
  have h2: "?cs \<noteq> []" by simp
  have e: "setAges (fst (projr (getVictim ?st ?cs))) 7 = Some [2, 0, 3, 1]" by code_simp
  from getVictim_table_dense [OF h1 h2] h1 h2 e show ?thesis by auto
qed

text \<open>
  An instance: two ways configured, a candidate at way 7 with the least age. It is
  chosen, and the vector holds the ranks of the two in-range candidates only.
\<close>

theorem getVictim_sync_guard_witness:
  "[\<lparr>getSet = 0, getWay = 0, replacementData = \<lparr>age = 5, valid = True, set_id = 0, way = 0\<rparr>\<rparr>,
    \<lparr>getSet = 0, getWay = 1, replacementData = \<lparr>age = 6, valid = True, set_id = 0, way = 1\<rparr>\<rparr>,
    \<lparr>getSet = 0, getWay = 7, replacementData = \<lparr>age = 1, valid = True, set_id = 0, way = 7\<rparr>\<rparr>] \<noteq> [] \<and>
   (\<exists>st' cs k v'.
      getVictim \<lparr>numWays = 2, mruPct = 50, quantum = 2, pv = [1, 0], insPos = 0, setAges = Map.empty\<rparr>
        [\<lparr>getSet = 0, getWay = 0, replacementData = \<lparr>age = 5, valid = True, set_id = 0, way = 0\<rparr>\<rparr>,
         \<lparr>getSet = 0, getWay = 1, replacementData = \<lparr>age = 6, valid = True, set_id = 0, way = 1\<rparr>\<rparr>,
         \<lparr>getSet = 0, getWay = 7, replacementData = \<lparr>age = 1, valid = True, set_id = 0, way = 7\<rparr>\<rparr>]
        = Inr (st', cs, k) \<and>
      setAges st' 0 = Some (normalize_vec v')) \<and>
   snd (snd (projr (getVictim \<lparr>numWays = 2, mruPct = 50, quantum = 2, pv = [1, 0], insPos = 0, setAges = Map.empty\<rparr>
        [\<lparr>getSet = 0, getWay = 0, replacementData = \<lparr>age = 5, valid = True, set_id = 0, way = 0\<rparr>\<rparr>,
         \<lparr>getSet = 0, getWay = 1, replacementData = \<lparr>age = 6, valid = True, set_id = 0, way = 1\<rparr>\<rparr>,
         \<lparr>getSet = 0, getWay = 7, replacementData = \<lparr>age = 1, valid = True, set_id = 0, way = 7\<rparr>\<rparr>]))) = 2 \<and>
   setAges (fst (projr (getVictim \<lparr>numWays = 2, mruPct = 50, quantum = 2, pv = [1, 0], insPos = 0, setAges = Map.empty\<rparr>
        [\<lparr>getSet = 0, getWay = 0, replacementData = \<lparr>age = 5, valid = True, set_id = 0, way = 0\<rparr>\<rparr>,
         \<lparr>getSet = 0, getWay = 1, replacementData = \<lparr>age = 6, valid = True, set_id = 0, way = 1\<rparr>\<rparr>,
         \<lparr>getSet = 0, getWay = 7, replacementData = \<lparr>age = 1, valid = True, set_id = 0, way = 7\<rparr>\<rparr>]))) 0
     = Some [0, 1]"
proof -
  let ?st = "\<lparr>numWays = 2, mruPct = 50, quantum = 2, pv = [1, 0], insPos = 0, setAges = Map.empty\<rparr>"
  let ?cs = "[\<lparr>getSet = 0, getWay = 0, replacementData = \<lparr>age = 5, valid = True, set_id = 0, way = 0\<rparr>\<rparr>,
    \<lparr>getSet = 0, getWay = 1, replacementData = \<lparr>age = 6, valid = True, set_id = 0, way = 1\<rparr>\<rparr>,
    \<lparr>getSet = 0, getWay = 7, replacementData = \<lparr>age = 1, valid = True, set_id = 0, way = 7\<rparr>\<rparr>]"
  have h: "?cs \<noteq> []" by simp
  have e1: "snd (snd (projr (getVictim ?st ?cs))) = 2" by code_simp
  have e2: "setAges (fst (projr (getVictim ?st ?cs))) 0 = Some [0, 1]" by code_simp
  from getVictim_sync_guard [OF h, of ?st] h e1 e2 show ?thesis by auto
qed

section \<open>The insertion schedule\<close>

lemma insertMRU_ensureSet: "insertMRU (ensureSet st s) = insertMRU st"
  by (simp add: insertMRU_def ensureSet_fields)

lemma reset_schedule:
  assumes ok: "schedule_ok st" and r: "reset st d = Inr (st', d')"
  shows "sint (insPos st') = (sint (insPos st) + 1) mod sint (quantum st)"
    and "quantum st' = quantum st" and "mruPct st' = mruPct st" and "pv st' = pv st"
proof -
  let ?st1 = "ensureSet st (set_id d)"
  obtain b st2 v' r' where adv: "advance ?st1 = Inr st2"
    and st': "st' = st2\<lparr>setAges := (setAges st2)(set_id d \<mapsto> v')\<rparr>"
    using reset_result [OF r] by blast
  have ok1: "schedule_ok ?st1" using ok by (rule schedule_ok_cong) (simp_all add: ensureSet_fields)
  obtain st2' where a: "advance ?st1 = Inr st2'"
      "st2' = ?st1\<lparr>insPos := word_of_int ((sint (insPos ?st1) + 1) mod sint (quantum ?st1))\<rparr>"
      "sint (insPos st2') = (sint (insPos ?st1) + 1) mod sint (quantum ?st1)"
    using advance_schedule_ok [OF ok1] by blast
  have e: "st2 = st2'" using adv a(1) by simp
  show "sint (insPos st') = (sint (insPos st) + 1) mod sint (quantum st)"
    using a(3) e by (simp add: st' ensureSet_fields)
  show "quantum st' = quantum st" "mruPct st' = mruPct st" "pv st' = pv st"
    using a(2) e by (simp_all add: st' ensureSet_fields)
qed

lemma filter_rotate1_length: "length (filter P (rotate1 xs)) = length (filter P xs)"
  by (cases xs) simp_all

lemma filter_rotate_length: "length (filter P (rotate m xs)) = length (filter P xs)"
  by (induction m) (simp_all add: filter_rotate1_length)

lemma count_below: "a \<le> n \<Longrightarrow> length (filter (\<lambda>i. i < a) [0..<n]) = (a :: nat)"
proof -
  assume a: "a \<le> n"
  have "{i. i < length [0..<n] \<and> [0..<n] ! i < a} = {..<a}" using a by auto
  then show ?thesis by (simp add: length_filter_conv_card)
qed

lemma window_count:
  fixes a n c :: nat
  assumes "a \<le> n" and "length bs = n" and "\<forall>k<n. bs ! k = ((c + k) mod n < a)"
  shows "length (filter id bs) = a"
proof -
  let ?pat = "map (\<lambda>i. i < a) [0..<n]"
  have "bs = rotate c ?pat"
  proof (rule nth_equalityI)
    show "length bs = length (rotate c ?pat)" using assms(2) by simp
  next
    fix k assume "k < length bs"
    then have k: "k < n" using assms(2) by simp
    then have "(c + k) mod n < n" by simp
    then show "bs ! k = rotate c ?pat ! k" using k assms(3) by (simp add: nth_rotate)
  qed
  then have "length (filter id bs) = length (filter id ?pat)" by (simp add: filter_rotate_length)
  also have "\<dots> = length (filter (\<lambda>i. i < a) [0..<n])" by (simp add: filter_map comp_def)
  also have "\<dots> = a" by (rule count_below [OF assms(1)])
  finally show ?thesis .
qed

lemma clamp_sdiv_div: "max 0 (min q (x sdiv 100)) = max 0 (min q ((x :: int) div 100))"
proof (cases "0 \<le> x")
  case True
  then have "x sdiv 100 = x div 100" by (cases "x = 0") (simp_all add: signed_divide_int_def)
  then show ?thesis by simp
next
  case False
  then have "x sdiv 100 \<le> 0" by (simp add: signed_divide_int_def)
  moreover have "x div 100 \<le> 0" using False by (simp add: div_int_pos_iff not_le [symmetric])
  ultimately show ?thesis by simp
qed

lemma pattern_nth:
  assumes "0 \<le> mc" "mc \<le> q" "i < nat q"
  shows "((replicate (nat mc) (1 :: cint) @ replicate (nat (q - mc)) 0) ! i = 1) = (int i < mc)"
proof (cases "int i < mc")
  case True
  then have "i < nat mc" by simp
  then show ?thesis using True by (simp add: nth_append)
next
  case False
  then have a: "\<not> i < nat mc" using assms(1) by simp
  have "i - nat mc < nat (q - mc)" using assms False by linarith
  then show ?thesis using False a by (simp add: nth_append)
qed

lemma touch_schedule:
  assumes "touch st d = Inr (st', d')"
  shows "insPos st' = insPos st" "pv st' = pv st" "quantum st' = quantum st" "mruPct st' = mruPct st"
proof -
  obtain v' where "st' = (ensureSet st (set_id d))\<lparr>setAges := (setAges (ensureSet st (set_id d)))(set_id d \<mapsto> v')\<rparr>"
    using touch_result [OF assms] by blast
  then show "insPos st' = insPos st" "pv st' = pv st" "quantum st' = quantum st" "mruPct st' = mruPct st"
    by (simp_all add: ensureSet_fields)
qed

lemma getVictim_schedule:
  assumes "getVictim st candidates = Inr (st', cs, k)"
  shows "insPos st' = insPos st" "pv st' = pv st" "quantum st' = quantum st" "mruPct st' = mruPct st"
proof -
  have ne: "candidates \<noteq> []" using assms by (auto simp: getVictim_def)
  obtain v' where "getVictim st candidates =
      Inr ((ensureSet st (getSet (candidates ! 0)))
             \<lparr>setAges := (setAges (ensureSet st (getSet (candidates ! 0))))
                           (getSet (candidates ! 0) \<mapsto> normalize_vec v')\<rparr>,
           map stamp candidates, fst (scan (map stamp candidates) 0 (0, - 1)))"
    using getVictim_result [OF ne, of st] by blast
  then have "st' = (ensureSet st (getSet (candidates ! 0)))
             \<lparr>setAges := (setAges (ensureSet st (getSet (candidates ! 0))))
                           (getSet (candidates ! 0) \<mapsto> normalize_vec v')\<rparr>"
    using assms by simp
  then show "insPos st' = insPos st" "pv st' = pv st" "quantum st' = quantum st" "mruPct st' = mruPct st"
    by (simp_all add: ensureSet_fields)
qed

lemma reset_applies:
  assumes ok: "schedule_ok st" and r: "reset st d = Inr (st', d')"
  shows "\<exists>v'. setAges st' (set_id d) = Some v' \<and>
           (if sint (insPos st) < mru_count_of (sint (quantum st)) (sint (quantum st) * sint (mruPct st))
            then promoteToMRU (setAges_at (setAges (ensureSet st (set_id d))) (set_id d)) (sint (way d))
            else insertNearLRU (setAges_at (setAges (ensureSet st (set_id d))) (set_id d)) (sint (way d)))
             = Inr (v', age d')"
proof -
  let ?st1 = "ensureSet st (set_id d)"
  let ?v = "setAges_at (setAges ?st1) (set_id d)"
  obtain b st2 v' r' where b: "insertMRU ?st1 = Inr b"
    and p: "(if b then promoteToMRU ?v (sint (way d)) else insertNearLRU ?v (sint (way d))) = Inr (v', r')"
    and st': "st' = st2\<lparr>setAges := (setAges st2)(set_id d \<mapsto> v')\<rparr>"
    and d': "d' = d\<lparr>age := r', valid := True\<rparr>"
    using reset_result [OF r] by blast
  have "insertMRU st = Inr b" using b by (simp add: insertMRU_ensureSet)
  then have "b = (sint (insPos st) < mru_count_of (sint (quantum st)) (sint (quantum st) * sint (mruPct st)))"
    using insertMRU_schedule_ok [OF ok] by simp
  then show ?thesis using p st' d' by simp
qed

lemma calls_trace:
  "schedule_ok st \<Longrightarrow> calls st cs = Inr (fills, st') \<Longrightarrow>
   schedule_ok st' \<and> quantum st' = quantum st \<and> mruPct st' = mruPct st \<and> pv st' = pv st \<and>
   sint (insPos st') = (sint (insPos st) + int (length fills)) mod sint (quantum st) \<and>
   (\<forall>k<length fills.
      f_mru (fills ! k) = ((sint (insPos st) + int k) mod sint (quantum st)
        < mru_count_of (sint (quantum st)) (sint (quantum st) * sint (mruPct st))) \<and>
      sint (insPos (f_before (fills ! k))) = (sint (insPos st) + int k) mod sint (quantum st) \<and>
      schedule_ok (f_before (fills ! k)) \<and>
      quantum (f_before (fills ! k)) = quantum st \<and> mruPct (f_before (fills ! k)) = mruPct st \<and>
      reset (f_before (fills ! k)) (f_record (fills ! k)) = Inr (f_after (fills ! k), f_record' (fills ! k)))"
proof (induction cs arbitrary: st fills)
  case Nil
  then show ?case by (simp add: schedule_ok_def Let_def)
next
  case (Cons c cs)
  let ?q = "sint (quantum st)" and ?c = "sint (insPos st)"
  let ?mc = "mru_count_of ?q (?q * sint (mruPct st))"
  have q: "1 \<le> ?q" and cr: "0 \<le> ?c" "?c < ?q"
    using Cons.prems(1) by (simp_all add: schedule_ok_def Let_def)
  show ?case
  proof (cases c)
    case (Touch d)
    then obtain st1 d1 where t: "touch st d = Inr (st1, d1)" and rest: "calls st1 cs = Inr (fills, st')"
      using Cons.prems(2) by (auto split: sum.splits)
    have ok1: "schedule_ok st1" using touch_inv(2) [OF t Cons.prems(1)] .
    show ?thesis using Cons.IH [OF ok1 rest] touch_schedule [OF t] by simp
  next
    case (GetVictim candidates)
    then obtain st1 cs1 k1 where g: "getVictim st candidates = Inr (st1, cs1, k1)"
      and rest: "calls st1 cs = Inr (fills, st')"
      using Cons.prems(2) by (auto split: sum.splits)
    have ok1: "schedule_ok st1" using getVictim_inv(2) [OF g Cons.prems(1)] .
    show ?thesis using Cons.IH [OF ok1 rest] getVictim_schedule [OF g] by simp
  next
    case (Invalidate d)
    then have rest: "calls st cs = Inr (fills, st')"
      using Cons.prems(2) by (simp add: invalidate_def)
    show ?thesis using Cons.IH [OF Cons.prems(1) rest] .
  next
    case (Reset d)
    have fl: "insertMRU st = Inr (?c < ?mc)" by (rule insertMRU_schedule_ok [OF Cons.prems(1)])
    obtain st1 d1 fs1 where r: "reset st d = Inr (st1, d1)" and rest: "calls st1 cs = Inr (fs1, st')"
      and fills: "fills = \<lparr>f_mru = (?c < ?mc), f_before = st, f_record = d,
                            f_after = st1, f_record' = d1\<rparr> # fs1"
      using Cons.prems(2) Reset fl by (auto split: sum.splits)
    have ok1: "schedule_ok st1" using reset_inv(2) [OF r Cons.prems(1)] .
    note s = reset_schedule [OF Cons.prems(1) r]
    note IH = Cons.IH [OF ok1 rest]
    have step: "\<And>n. ((?c + 1) mod ?q + int n) mod ?q = (?c + int (Suc n)) mod ?q"
    proof -
      fix n
      have e: "?c + 1 + int n = ?c + int (Suc n)" by simp
      have "((?c + 1) mod ?q + int n) mod ?q = (?c + 1 + int n) mod ?q"
        by (simp add: mod_add_left_eq)
      then show "((?c + 1) mod ?q + int n) mod ?q = (?c + int (Suc n)) mod ?q"
        by (simp only: e)
    qed
    have pos: "sint (insPos st') = (?c + int (length fills)) mod ?q"
      using IH s step [of "length fs1"] by (simp add: fills)
    have each: "\<forall>k<length fills.
      f_mru (fills ! k) = ((?c + int k) mod ?q < ?mc) \<and>
      sint (insPos (f_before (fills ! k))) = (?c + int k) mod ?q \<and>
      schedule_ok (f_before (fills ! k)) \<and>
      quantum (f_before (fills ! k)) = quantum st \<and> mruPct (f_before (fills ! k)) = mruPct st \<and>
      reset (f_before (fills ! k)) (f_record (fills ! k)) = Inr (f_after (fills ! k), f_record' (fills ! k))"
    proof (intro allI impI)
      fix k assume k: "k < length fills"
      show "f_mru (fills ! k) = ((?c + int k) mod ?q < ?mc) \<and>
        sint (insPos (f_before (fills ! k))) = (?c + int k) mod ?q \<and>
        schedule_ok (f_before (fills ! k)) \<and>
        quantum (f_before (fills ! k)) = quantum st \<and> mruPct (f_before (fills ! k)) = mruPct st \<and>
        reset (f_before (fills ! k)) (f_record (fills ! k)) = Inr (f_after (fills ! k), f_record' (fills ! k))"
      proof (cases k)
        case 0
        then show ?thesis using cr r Cons.prems(1) by (simp add: fills)
      next
        case (Suc k')
        then have k': "k' < length fs1" using k by (simp add: fills)
        show ?thesis using IH k' s step [of k'] by (simp add: fills Suc)
      qed
    qed
    show ?thesis using IH s pos each by simp
  qed
qed

lemma schedule_ok_facts:
  assumes ok: "schedule_ok st" and q: "q = sint (quantum st)"
    and mcd: "mru_count = max 0 (min q ((q * sint (mruPct st)) div 100))"
  shows "length (pv st) = nat q \<and>
         (\<forall>i<nat q. (pv st ! i = 1) = (int i < mru_count)) \<and>
         0 \<le> sint (insPos st) \<and> sint (insPos st) < q \<and>
         (\<forall>d st' d'. touch st d = Inr (st', d') \<longrightarrow> insPos st' = insPos st \<and> pv st' = pv st) \<and>
         (\<forall>candidates st' cs' k. getVictim st candidates = Inr (st', cs', k) \<longrightarrow>
            insPos st' = insPos st \<and> pv st' = pv st) \<and>
         (\<forall>d. fst (invalidate st d) = st) \<and>
         (\<forall>d st' d'. reset st d = Inr (st', d') \<longrightarrow>
            sint (insPos st') = (sint (insPos st) + 1) mod q \<and> pv st' = pv st \<and>
            (\<exists>v'. setAges st' (set_id d) = Some v' \<and>
               (if sint (insPos st) < mru_count
                then promoteToMRU (setAges_at (setAges (ensureSet st (set_id d))) (set_id d)) (sint (way d))
                else insertNearLRU (setAges_at (setAges (ensureSet st (set_id d))) (set_id d)) (sint (way d)))
                 = Inr (v', age d'))) \<and>
         (\<forall>cs fills st'. calls st cs = Inr (fills, st') \<and> length fills = nat q \<longrightarrow>
            length (filter f_mru fills) = nat mru_count \<and>
            length (filter (\<lambda>f. \<not> f_mru f) fills) = nat (q - mru_count) \<and>
            sint (insPos st') = sint (insPos st) \<and>
            (\<forall>f\<in>set fills.
               reset (f_before f) (f_record f) = Inr (f_after f, f_record' f) \<and>
               f_mru f = (sint (insPos (f_before f)) < mru_count) \<and>
               (\<exists>v'. setAges (f_after f) (set_id (f_record f)) = Some v' \<and>
                  (if f_mru f
                   then promoteToMRU (setAges_at (setAges (ensureSet (f_before f) (set_id (f_record f))))
                                        (set_id (f_record f))) (sint (way (f_record f)))
                   else insertNearLRU (setAges_at (setAges (ensureSet (f_before f) (set_id (f_record f))))
                                        (set_id (f_record f))) (sint (way (f_record f))))
                    = Inr (v', age (f_record' f)))))"
proof -
  let ?c = "sint (insPos st)"
  have mc: "mru_count = mru_count_of q (q * sint (mruPct st))"
    by (simp add: mcd mru_count_of_def clamp_sdiv_div)
  have q1: "1 \<le> q" and c: "0 \<le> ?c" "?c < q"
    and pv: "pv st = replicate (nat mru_count) 1 @ replicate (nat (q - mru_count)) 0"
    using ok by (simp_all add: schedule_ok_def Let_def q mc)
  have mb: "0 \<le> mru_count" "mru_count \<le> q" using q1 by (simp_all add: mcd)
  have len: "length (pv st) = nat q" using pv mb by simp
  have pat: "\<forall>i<nat q. (pv st ! i = 1) = (int i < mru_count)"
    using pattern_nth [OF mb] by (simp add: pv)
  have tch: "\<forall>d st' d'. touch st d = Inr (st', d') \<longrightarrow> insPos st' = insPos st \<and> pv st' = pv st"
    using touch_schedule by blast
  have gv: "\<forall>candidates st' cs' k. getVictim st candidates = Inr (st', cs', k) \<longrightarrow>
            insPos st' = insPos st \<and> pv st' = pv st"
    using getVictim_schedule by blast
  have inv: "\<forall>d. fst (invalidate st d) = st" by (simp add: invalidate_def)
  have rs: "\<forall>d st' d'. reset st d = Inr (st', d') \<longrightarrow>
            sint (insPos st') = (?c + 1) mod q \<and> pv st' = pv st \<and>
            (\<exists>v'. setAges st' (set_id d) = Some v' \<and>
               (if ?c < mru_count
                then promoteToMRU (setAges_at (setAges (ensureSet st (set_id d))) (set_id d)) (sint (way d))
                else insertNearLRU (setAges_at (setAges (ensureSet st (set_id d))) (set_id d)) (sint (way d)))
                 = Inr (v', age d'))"
    using reset_schedule [OF ok] reset_applies [OF ok] by (simp add: q mc)
  have win: "\<forall>cs fills st'. calls st cs = Inr (fills, st') \<and> length fills = nat q \<longrightarrow>
            length (filter f_mru fills) = nat mru_count \<and>
            length (filter (\<lambda>f. \<not> f_mru f) fills) = nat (q - mru_count) \<and>
            sint (insPos st') = ?c \<and>
            (\<forall>f\<in>set fills.
               reset (f_before f) (f_record f) = Inr (f_after f, f_record' f) \<and>
               f_mru f = (sint (insPos (f_before f)) < mru_count) \<and>
               (\<exists>v'. setAges (f_after f) (set_id (f_record f)) = Some v' \<and>
                  (if f_mru f
                   then promoteToMRU (setAges_at (setAges (ensureSet (f_before f) (set_id (f_record f))))
                                        (set_id (f_record f))) (sint (way (f_record f)))
                   else insertNearLRU (setAges_at (setAges (ensureSet (f_before f) (set_id (f_record f))))
                                        (set_id (f_record f))) (sint (way (f_record f))))
                    = Inr (v', age (f_record' f))))"
  proof (intro allI impI)
    fix cs fills st'
    assume a: "calls st cs = Inr (fills, st') \<and> length fills = nat q"
    then have lf: "length fills = nat q" by simp
    note t = calls_trace [OF ok conjunct1 [OF a]]
    have tk: "\<And>k. k < nat q \<Longrightarrow>
        f_mru (fills ! k) = ((?c + int k) mod q < mru_count) \<and>
        sint (insPos (f_before (fills ! k))) = (?c + int k) mod q \<and>
        schedule_ok (f_before (fills ! k)) \<and>
        quantum (f_before (fills ! k)) = quantum st \<and> mruPct (f_before (fills ! k)) = mruPct st \<and>
        reset (f_before (fills ! k)) (f_record (fills ! k)) = Inr (f_after (fills ! k), f_record' (fills ! k))"
      using t lf by (simp add: q mc)
    let ?bs = "map f_mru fills"
    have lb: "length ?bs = nat q" using lf by simp
    have fk: "\<forall>k<nat q. ?bs ! k = ((nat ?c + k) mod nat q < nat mru_count)"
    proof (intro allI impI)
      fix k assume k: "k < nat q"
      have "(?c + int k) mod q = int ((nat ?c + k) mod nat q)"
        using c q1 by (simp add: zmod_int)
      moreover have "?bs ! k = ((?c + int k) mod q < mru_count)"
        using tk [OF k] k lf by simp
      moreover have "(int ((nat ?c + k) mod nat q) < mru_count)
                      = ((nat ?c + k) mod nat q < nat mru_count)"
        using mb(1) by linarith
      ultimately show "?bs ! k = ((nat ?c + k) mod nat q < nat mru_count)"
        by simp
    qed
    have le: "nat mru_count \<le> nat q" using mb(2) by (rule nat_mono)
    have "length (filter id ?bs) = nat mru_count"
      by (rule window_count [OF le lb fk])
    then have cnt: "length (filter f_mru fills) = nat mru_count"
      by (simp add: filter_map comp_def)
    have "length (filter f_mru fills) + length (filter (\<lambda>f. \<not> f_mru f) fills) = length fills"
      by (rule sum_length_filter_compl)
    then have "length (filter (\<lambda>f. \<not> f_mru f) fills) = nat q - nat mru_count" using cnt lf by simp
    then have cnt': "length (filter (\<lambda>f. \<not> f_mru f) fills) = nat (q - mru_count)" using mb by linarith
    have "sint (insPos st') = (?c + q) mod q" using t lf q1 by (simp add: q)
    then have cur: "sint (insPos st') = ?c" using c by simp
    have each: "\<forall>f\<in>set fills.
               reset (f_before f) (f_record f) = Inr (f_after f, f_record' f) \<and>
               f_mru f = (sint (insPos (f_before f)) < mru_count) \<and>
               (\<exists>v'. setAges (f_after f) (set_id (f_record f)) = Some v' \<and>
                  (if f_mru f
                   then promoteToMRU (setAges_at (setAges (ensureSet (f_before f) (set_id (f_record f))))
                                        (set_id (f_record f))) (sint (way (f_record f)))
                   else insertNearLRU (setAges_at (setAges (ensureSet (f_before f) (set_id (f_record f))))
                                        (set_id (f_record f))) (sint (way (f_record f))))
                    = Inr (v', age (f_record' f)))"
    proof
      fix f assume "f \<in> set fills"
      then obtain k where k: "k < nat q" "fills ! k = f"
        using lf by (auto simp: in_set_conv_nth)
      note fk = tk [OF k(1), unfolded k(2)]
      have okb: "schedule_ok (f_before f)" and r: "reset (f_before f) (f_record f) = Inr (f_after f, f_record' f)"
        using fk by simp_all
      have fm: "f_mru f = (sint (insPos (f_before f)) < mru_count)" using fk by simp
      have "mru_count_of (sint (quantum (f_before f))) (sint (quantum (f_before f)) * sint (mruPct (f_before f)))
              = mru_count"
        using fk by (simp add: q mc)
      then have "\<exists>v'. setAges (f_after f) (set_id (f_record f)) = Some v' \<and>
                  (if f_mru f
                   then promoteToMRU (setAges_at (setAges (ensureSet (f_before f) (set_id (f_record f))))
                                        (set_id (f_record f))) (sint (way (f_record f)))
                   else insertNearLRU (setAges_at (setAges (ensureSet (f_before f) (set_id (f_record f))))
                                        (set_id (f_record f))) (sint (way (f_record f))))
                    = Inr (v', age (f_record' f))"
        using reset_applies [OF okb r] fm by simp
      then show "reset (f_before f) (f_record f) = Inr (f_after f, f_record' f) \<and>
               f_mru f = (sint (insPos (f_before f)) < mru_count) \<and>
               (\<exists>v'. setAges (f_after f) (set_id (f_record f)) = Some v' \<and>
                  (if f_mru f
                   then promoteToMRU (setAges_at (setAges (ensureSet (f_before f) (set_id (f_record f))))
                                        (set_id (f_record f))) (sint (way (f_record f)))
                   else insertNearLRU (setAges_at (setAges (ensureSet (f_before f) (set_id (f_record f))))
                                        (set_id (f_record f))) (sint (way (f_record f))))
                    = Inr (v', age (f_record' f)))"
        using r fm by blast
    qed
    show "length (filter f_mru fills) = nat mru_count \<and>
            length (filter (\<lambda>f. \<not> f_mru f) fills) = nat (q - mru_count) \<and>
            sint (insPos st') = ?c \<and>
            (\<forall>f\<in>set fills.
               reset (f_before f) (f_record f) = Inr (f_after f, f_record' f) \<and>
               f_mru f = (sint (insPos (f_before f)) < mru_count) \<and>
               (\<exists>v'. setAges (f_after f) (set_id (f_record f)) = Some v' \<and>
                  (if f_mru f
                   then promoteToMRU (setAges_at (setAges (ensureSet (f_before f) (set_id (f_record f))))
                                        (set_id (f_record f))) (sint (way (f_record f)))
                   else insertNearLRU (setAges_at (setAges (ensureSet (f_before f) (set_id (f_record f))))
                                        (set_id (f_record f))) (sint (way (f_record f))))
                    = Inr (v', age (f_record' f))))"
      using cnt cnt' cur each by blast
  qed
  show ?thesis using len pat c tch gv inv rs win by blast
qed

text \<open>
  C6, as stated for every construction, fails: with \<^verbatim>\<open>quantum = 2\<close> and
  \<^verbatim>\<open>mruPct = 1073741824\<close> the claim's formula gives two MRU slots, but the constructor's
  \<^verbatim>\<open>int\<close> product \<^verbatim>\<open>quantum * mruPct\<close> is \<open>2^31\<close>, outside the range of \<^verbatim>\<open>int\<close>: the
  construction has no defined result (a build that wraps the product computes a negative
  quotient and marks no slot).
\<close>

theorem ctor_overflow_counterexample:
  "LRUIPVRP_ctor \<lparr>p_numWays = 4, p_mru_pct = 1073741824, p_quantum = 2\<rparr> = Inl SignedOverflow \<and>
   max 0 (min 2 ((2 * 1073741824) div 100)) = (2 :: int)"
  by (simp add: LRUIPVRP_ctor_def checked_def Let_def)

text \<open>
  C6, amended. For every construction with \<^verbatim>\<open>numWays > 0\<close> whose product \<open>q * mruPct\<close>
  lies in the range of \<^verbatim>\<open>int\<close>, where \<open>q\<close> is \<^verbatim>\<open>quantum\<close> raised to 1 when it is not
  positive and \<open>mru_count = clamp((q * mruPct) / 100, 0, q)\<close> with the division rounding
  down: the constructor returns an engine with the cursor at 0, and in every engine
  reached from it by any run of calls
  \<^item> the pattern has \<open>q\<close> slots and exactly the first \<open>mru_count\<close> of them are marked MRU;
  \<^item> the one cursor of the engine is inside the pattern; \<^verbatim>\<open>touch\<close>, \<^verbatim>\<open>getVictim\<close> and
    \<^verbatim>\<open>invalidate\<close> leave the cursor and the pattern as they are;
  \<^item> every \<^verbatim>\<open>reset\<close>, on whatever set, moves the cursor to the next position modulo \<open>q\<close>
    and stores in the set's vector and in the record's age the result of
    \<^verbatim>\<open>promoteToMRU\<close> when the cursor was below \<open>mru_count\<close>, of \<^verbatim>\<open>insertNearLRU\<close> otherwise;
  \<^item> in every run of calls that contains exactly \<open>q\<close> \<^verbatim>\<open>reset\<close> calls, with whatever other
    calls between them, \<open>mru_count\<close> of the fills are MRU inserts and the other
    \<open>q - mru_count\<close> are near-LRU inserts, each fill being the \<^verbatim>\<open>reset\<close> call on the engine
    before it, treated as an MRU insert exactly when the cursor was below \<open>mru_count\<close>,
    and the cursor is back where it was.
\<close>

theorem schedule_periodic:
  assumes "0 < sint (p_numWays p)"
    and "q = max 1 (sint (p_quantum p))"
    and "- (2 ^ 31) \<le> q * sint (p_mru_pct p)" and "q * sint (p_mru_pct p) < 2 ^ 31"
    and "mru_count = max 0 (min q ((q * sint (p_mru_pct p)) div 100))"
  shows "\<exists>st0. LRUIPVRP_ctor p = Inr st0 \<and> insPos st0 = 0 \<and> 0 \<le> mru_count \<and> mru_count \<le> q \<and>
     (\<forall>cs0 fs0 st. calls st0 cs0 = Inr (fs0, st) \<longrightarrow>
        sint (quantum st) = q \<and>
        (length (pv st) = nat q \<and>
         (\<forall>i<nat q. (pv st ! i = 1) = (int i < mru_count)) \<and>
         0 \<le> sint (insPos st) \<and> sint (insPos st) < q \<and>
         (\<forall>d st' d'. touch st d = Inr (st', d') \<longrightarrow> insPos st' = insPos st \<and> pv st' = pv st) \<and>
         (\<forall>candidates st' cs' k. getVictim st candidates = Inr (st', cs', k) \<longrightarrow>
            insPos st' = insPos st \<and> pv st' = pv st) \<and>
         (\<forall>d. fst (invalidate st d) = st) \<and>
         (\<forall>d st' d'. reset st d = Inr (st', d') \<longrightarrow>
            sint (insPos st') = (sint (insPos st) + 1) mod q \<and> pv st' = pv st \<and>
            (\<exists>v'. setAges st' (set_id d) = Some v' \<and>
               (if sint (insPos st) < mru_count
                then promoteToMRU (setAges_at (setAges (ensureSet st (set_id d))) (set_id d)) (sint (way d))
                else insertNearLRU (setAges_at (setAges (ensureSet st (set_id d))) (set_id d)) (sint (way d)))
                 = Inr (v', age d'))) \<and>
         (\<forall>cs fills st'. calls st cs = Inr (fills, st') \<and> length fills = nat q \<longrightarrow>
            length (filter f_mru fills) = nat mru_count \<and>
            length (filter (\<lambda>f. \<not> f_mru f) fills) = nat (q - mru_count) \<and>
            sint (insPos st') = sint (insPos st) \<and>
            (\<forall>f\<in>set fills.
               reset (f_before f) (f_record f) = Inr (f_after f, f_record' f) \<and>
               f_mru f = (sint (insPos (f_before f)) < mru_count) \<and>
               (\<exists>v'. setAges (f_after f) (set_id (f_record f)) = Some v' \<and>
                  (if f_mru f
                   then promoteToMRU (setAges_at (setAges (ensureSet (f_before f) (set_id (f_record f))))
                                        (set_id (f_record f))) (sint (way (f_record f)))
                   else insertNearLRU (setAges_at (setAges (ensureSet (f_before f) (set_id (f_record f))))
                                        (set_id (f_record f))) (sint (way (f_record f))))
                    = Inr (v', age (f_record' f)))))))"
proof -
  have "\<exists>st0. LRUIPVRP_ctor p = Inr st0"
    using assms(1,3,4) unfolding assms(2) by (simp add: LRUIPVRP_ctor_def Let_def checked_def)
  then obtain st0 where c0: "LRUIPVRP_ctor p = Inr st0" by blast
  note f = ctor_fields [OF c0]
  have ok0: "schedule_ok st0" by (rule ctor_inv(2) [OF c0])
  have q0: "sint (quantum st0) = q" using f(3) by (simp add: assms(2))
  have q1: "1 \<le> q" by (simp add: assms(2))
  have mb: "0 \<le> mru_count" "mru_count \<le> q" using q1 by (simp_all add: assms(5))
  have K: "\<And>cs0 fs0 st. calls st0 cs0 = Inr (fs0, st) \<Longrightarrow> schedule_ok st \<and> q = sint (quantum st) \<and>
          mru_count = max 0 (min q ((q * sint (mruPct st)) div 100))"
  proof -
    fix cs0 fs0 st assume a: "calls st0 cs0 = Inr (fs0, st)"
    note t = calls_trace [OF ok0 a]
    show "schedule_ok st \<and> q = sint (quantum st) \<and>
          mru_count = max 0 (min q ((q * sint (mruPct st)) div 100))"
      using t q0 f(2) by (simp add: assms(5))
  qed
  show ?thesis
    apply (rule exI [of _ st0])
    apply (intro conjI)
        apply (rule c0)
       apply (rule f(4))
      apply (rule mb(1))
     apply (rule mb(2))
    apply (intro allI)
    apply (rule impI)
    apply (drule K)
    apply (elim conjE)
    apply (rule conjI)
     apply simp
    apply (rule schedule_ok_facts; assumption)
    done
qed

text \<open>
  An instance: \<^verbatim>\<open>quantum = 2\<close>, \<^verbatim>\<open>mruPct = 50\<close>; two fills on two different sets, each
  after a \<^verbatim>\<open>getVictim\<close>, with a \<^verbatim>\<open>touch\<close> between them.
\<close>

theorem schedule_periodic_witness:
  "0 < sint (p_numWays \<lparr>p_numWays = 4, p_mru_pct = 50, p_quantum = 2\<rparr>) \<and>
   (2 :: int) = max 1 (sint (p_quantum \<lparr>p_numWays = 4, p_mru_pct = 50, p_quantum = 2\<rparr>)) \<and>
   - (2 ^ 31) \<le> (2 :: int) * sint (p_mru_pct \<lparr>p_numWays = 4, p_mru_pct = 50, p_quantum = 2\<rparr>) \<and>
   (2 :: int) * sint (p_mru_pct \<lparr>p_numWays = 4, p_mru_pct = 50, p_quantum = 2\<rparr>) < 2 ^ 31 \<and>
   (1 :: int) = max 0 (min 2 ((2 * sint (p_mru_pct \<lparr>p_numWays = 4, p_mru_pct = 50, p_quantum = 2\<rparr>)) div 100)) \<and>
   map f_mru (fst (projr (calls (projr (LRUIPVRP_ctor \<lparr>p_numWays = 4, p_mru_pct = 50, p_quantum = 2\<rparr>))
     [GetVictim [\<lparr>getSet = 0, getWay = 0, replacementData = \<lparr>age = 0, valid = False, set_id = 0, way = 0\<rparr>\<rparr>],
      Reset \<lparr>age = 0, valid = True, set_id = 0, way = 0\<rparr>,
      Touch \<lparr>age = 3, valid = True, set_id = 0, way = 0\<rparr>,
      GetVictim [\<lparr>getSet = 3, getWay = 1, replacementData = \<lparr>age = 0, valid = False, set_id = 0, way = 0\<rparr>\<rparr>],
      Reset \<lparr>age = 0, valid = True, set_id = 3, way = 1\<rparr>]))) = [True, False] \<and>
   length (filter f_mru (fst (projr (calls (projr (LRUIPVRP_ctor \<lparr>p_numWays = 4, p_mru_pct = 50, p_quantum = 2\<rparr>))
     [GetVictim [\<lparr>getSet = 0, getWay = 0, replacementData = \<lparr>age = 0, valid = False, set_id = 0, way = 0\<rparr>\<rparr>],
      Reset \<lparr>age = 0, valid = True, set_id = 0, way = 0\<rparr>,
      Touch \<lparr>age = 3, valid = True, set_id = 0, way = 0\<rparr>,
      GetVictim [\<lparr>getSet = 3, getWay = 1, replacementData = \<lparr>age = 0, valid = False, set_id = 0, way = 0\<rparr>\<rparr>],
      Reset \<lparr>age = 0, valid = True, set_id = 3, way = 1\<rparr>])))) = nat 1"
proof -
  let ?p = "\<lparr>p_numWays = 4, p_mru_pct = 50, p_quantum = 2\<rparr>"
  let ?cs = "[GetVictim [\<lparr>getSet = 0, getWay = 0, replacementData = \<lparr>age = 0, valid = False, set_id = 0, way = 0\<rparr>\<rparr>],
      Reset \<lparr>age = 0, valid = True, set_id = 0, way = 0\<rparr>,
      Touch \<lparr>age = 3, valid = True, set_id = 0, way = 0\<rparr>,
      GetVictim [\<lparr>getSet = 3, getWay = 1, replacementData = \<lparr>age = 0, valid = False, set_id = 0, way = 0\<rparr>\<rparr>],
      Reset \<lparr>age = 0, valid = True, set_id = 3, way = 1\<rparr>]"
  have h1: "0 < sint (p_numWays ?p)" by simp
  have h2: "(2 :: int) = max 1 (sint (p_quantum ?p))" by simp
  have h3: "- (2 ^ 31) \<le> (2 :: int) * sint (p_mru_pct ?p)" by simp
  have h4: "(2 :: int) * sint (p_mru_pct ?p) < 2 ^ 31" by simp
  have h5: "(1 :: int) = max 0 (min 2 ((2 * sint (p_mru_pct ?p)) div 100))" by simp
  have nl: "\<not> isl (calls (projr (LRUIPVRP_ctor ?p)) ?cs)" by code_simp
  have e: "map f_mru (fst (projr (calls (projr (LRUIPVRP_ctor ?p)) ?cs))) = [True, False]" by code_simp
  have pick: "\<exists>x. A x \<and> B x \<and> C \<and> D \<and>
        (\<forall>a b s. F x a b s \<longrightarrow> G s \<and>
           (H1 s \<and> H2 s \<and> H3 s \<and> H4 s \<and> H5 s \<and> H6 s \<and> H7 s \<and> H8 s \<and>
            (\<forall>c f t. K s c f t \<longrightarrow> M f \<and> N f \<and> R s t \<and> P f))) \<Longrightarrow>
      \<exists>x. A x \<and> (\<forall>a b s c f t. F x a b s \<longrightarrow> K s c f t \<longrightarrow> M f)"
    for A B C D F G H1 H2 H3 H4 H5 H6 H7 H8 K M N R P
    by blast
  note T = pick [OF schedule_periodic [OF h1 h2 h3 h4 h5]]
  from T obtain st0 where c0: "LRUIPVRP_ctor ?p = Inr st0"
    and A: "\<forall>cs0 fs0 st cs fills st'. calls st0 cs0 = Inr (fs0, st) \<longrightarrow>
              calls st cs = Inr (fills, st') \<and> length fills = nat 2 \<longrightarrow>
              length (filter f_mru fills) = nat 1"
    by (elim exE conjE) (rule that; assumption)
  have s0: "projr (LRUIPVRP_ctor ?p) = st0" by (simp only: c0 sum.sel)
  have inr: "\<not> isl x \<Longrightarrow> \<exists>y z. x = Inr (y, z)" for x :: "failure + (fill list \<times> LRUIPVRP)"
    by (cases x) auto
  from inr [OF nl] obtain fills st' where r: "calls st0 ?cs = Inr (fills, st')"
    unfolding s0 by (elim exE) (rule that)
  have fe: "fst (projr (calls (projr (LRUIPVRP_ctor ?p)) ?cs)) = fills"
    by (simp only: s0 r sum.sel fst_conv)
  have e': "map f_mru fills = [True, False]" using e by (simp only: fe)
  have "length (map f_mru fills) = length [True, False]" by (simp only: e')
  then have l: "length fills = nat 2" by simp
  have e0: "calls st0 [] = Inr ([], st0)" by simp
  have cnt: "length (filter f_mru fills) = nat 1"
    using A [rule_format, OF e0 conjI [OF r l]] .
  show ?thesis
    unfolding fe by (intro conjI h1 h2 h3 h4 h5 e' cnt)
qed

section \<open>Failures\<close>

text \<open>
  The two checks of the source and what else can stop an operation. The constructor
  is fatal exactly for \<^verbatim>\<open>numWays <= 0\<close>; \<^verbatim>\<open>getVictim\<close> fails exactly on the empty list,
  with a panic; \<^verbatim>\<open>touch\<close> and \<^verbatim>\<open>reset\<close> complete on a reachable engine when the
  record's way is inside \<open>0..numWays-1\<close>.
\<close>

lemma ctor_Fatal_iff: "LRUIPVRP_ctor p = Inl Fatal \<longleftrightarrow> sint (p_numWays p) \<le> 0"
  by (auto simp: LRUIPVRP_ctor_def Let_def checked_def split: sum.splits if_splits)

lemma ctor_completes:
  "0 < sint (p_numWays p) \<Longrightarrow>
   - (2 ^ 31) \<le> max 1 (sint (p_quantum p)) * sint (p_mru_pct p) \<Longrightarrow>
   max 1 (sint (p_quantum p)) * sint (p_mru_pct p) < 2 ^ 31 \<Longrightarrow>
   \<exists>st. LRUIPVRP_ctor p = Inr st"
  by (simp add: LRUIPVRP_ctor_def Let_def checked_def)

lemma getVictim_Inl_iff: "getVictim st cs = Inl e \<longleftrightarrow> cs = [] \<and> e = Panic"
proof (cases "cs = []")
  case True
  then show ?thesis by (auto simp: getVictim_def)
next
  case False
  then show ?thesis using getVictim_result [OF False, of st] by auto
qed

lemma promoteToMRU_completes: "in_bounds v w \<Longrightarrow> \<exists>r. promoteToMRU v w = Inr r"
  by (simp add: promoteToMRU_def Let_def)

lemma insertNearLRU_completes: "in_bounds v w \<Longrightarrow> \<exists>r. insertNearLRU v w = Inr r"
  by (simp add: insertNearLRU_def Let_def in_bounds_def)

lemma touch_completes:
  assumes "reachable st" and "0 \<le> sint (way d)" and "sint (way d) < sint (numWays st)"
  shows "\<exists>st' d'. touch st d = Inr (st', d')"
proof -
  have t: "tables_ok st" using reachable_inv [OF assms(1)] by simp
  let ?v = "setAges_at (setAges (ensureSet st (set_id d))) (set_id d)"
  have "length ?v = nat (sint (numWays st))" by (rule tables_ok_ensureSet(2) [OF t])
  then have "in_bounds ?v (sint (way d))" using assms(2,3) by (simp add: in_bounds_def)
  then obtain r where "promoteToMRU ?v (sint (way d)) = Inr r"
    using promoteToMRU_completes by blast
  then show ?thesis by (cases r) (simp add: touch_def Let_def)
qed

lemma reset_completes:
  assumes "reachable st" and "0 \<le> sint (way d)" and "sint (way d) < sint (numWays st)"
  shows "\<exists>st' d'. reset st d = Inr (st', d')"
proof -
  have t: "tables_ok st" and s: "schedule_ok st" using reachable_inv [OF assms(1)] by simp_all
  let ?st1 = "ensureSet st (set_id d)"
  let ?v = "setAges_at (setAges ?st1) (set_id d)"
  have ok1: "schedule_ok ?st1" using s by (rule schedule_ok_cong) (simp_all add: ensureSet_fields)
  obtain b where b: "insertMRU ?st1 = Inr b" using insertMRU_schedule_ok [OF ok1] by blast
  obtain st2 where st2: "advance ?st1 = Inr st2" using advance_schedule_ok [OF ok1] by blast
  have "length ?v = nat (sint (numWays st))" by (rule tables_ok_ensureSet(2) [OF t])
  then have ib: "in_bounds ?v (sint (way d))" using assms(2,3) by (simp add: in_bounds_def)
  obtain r where "(if b then promoteToMRU ?v (sint (way d)) else insertNearLRU ?v (sint (way d))) = Inr r"
    using promoteToMRU_completes [OF ib] insertNearLRU_completes [OF ib] by (cases b) auto
  then show ?thesis using b st2 by (cases r) (simp add: reset_def Let_def)
qed

text \<open>
  C8. An input other than the two fatal ones that does not complete: an engine with
  \<^verbatim>\<open>numWays = 2\<close> is given four candidates of one set at ways 0 to 3. \<^verbatim>\<open>getVictim\<close> skips
  ways 2 and 3 in its sync (its guard \<^verbatim>\<open>w < numWays\<close>) and returns the candidate at way 3,
  whose record it has stamped with way 3. The \<^verbatim>\<open>reset\<close> that follows on that record indexes
  the two-slot vector at 3; so does \<^verbatim>\<open>touch\<close>. Neither has the guard of \<^verbatim>\<open>getVictim\<close>.
\<close>

theorem reset_after_getVictim_out_of_bounds:
  "\<not> isl (LRUIPVRP_ctor \<lparr>p_numWays = 2, p_mru_pct = 50, p_quantum = 2\<rparr>) \<and>
   \<not> isl (getVictim (projr (LRUIPVRP_ctor \<lparr>p_numWays = 2, p_mru_pct = 50, p_quantum = 2\<rparr>))
      [\<lparr>getSet = 0, getWay = 0, replacementData = \<lparr>age = 5, valid = True, set_id = 0, way = 0\<rparr>\<rparr>,
       \<lparr>getSet = 0, getWay = 1, replacementData = \<lparr>age = 6, valid = True, set_id = 0, way = 0\<rparr>\<rparr>,
       \<lparr>getSet = 0, getWay = 2, replacementData = \<lparr>age = 7, valid = True, set_id = 0, way = 0\<rparr>\<rparr>,
       \<lparr>getSet = 0, getWay = 3, replacementData = \<lparr>age = 1, valid = True, set_id = 0, way = 0\<rparr>\<rparr>]) \<and>
   snd (snd (projr (getVictim (projr (LRUIPVRP_ctor \<lparr>p_numWays = 2, p_mru_pct = 50, p_quantum = 2\<rparr>))
      [\<lparr>getSet = 0, getWay = 0, replacementData = \<lparr>age = 5, valid = True, set_id = 0, way = 0\<rparr>\<rparr>,
       \<lparr>getSet = 0, getWay = 1, replacementData = \<lparr>age = 6, valid = True, set_id = 0, way = 0\<rparr>\<rparr>,
       \<lparr>getSet = 0, getWay = 2, replacementData = \<lparr>age = 7, valid = True, set_id = 0, way = 0\<rparr>\<rparr>,
       \<lparr>getSet = 0, getWay = 3, replacementData = \<lparr>age = 1, valid = True, set_id = 0, way = 0\<rparr>\<rparr>]))) = 3 \<and>
   reset
     (fst (projr (getVictim (projr (LRUIPVRP_ctor \<lparr>p_numWays = 2, p_mru_pct = 50, p_quantum = 2\<rparr>))
      [\<lparr>getSet = 0, getWay = 0, replacementData = \<lparr>age = 5, valid = True, set_id = 0, way = 0\<rparr>\<rparr>,
       \<lparr>getSet = 0, getWay = 1, replacementData = \<lparr>age = 6, valid = True, set_id = 0, way = 0\<rparr>\<rparr>,
       \<lparr>getSet = 0, getWay = 2, replacementData = \<lparr>age = 7, valid = True, set_id = 0, way = 0\<rparr>\<rparr>,
       \<lparr>getSet = 0, getWay = 3, replacementData = \<lparr>age = 1, valid = True, set_id = 0, way = 0\<rparr>\<rparr>])))
     (replacementData (fst (snd (projr (getVictim (projr (LRUIPVRP_ctor \<lparr>p_numWays = 2, p_mru_pct = 50, p_quantum = 2\<rparr>))
      [\<lparr>getSet = 0, getWay = 0, replacementData = \<lparr>age = 5, valid = True, set_id = 0, way = 0\<rparr>\<rparr>,
       \<lparr>getSet = 0, getWay = 1, replacementData = \<lparr>age = 6, valid = True, set_id = 0, way = 0\<rparr>\<rparr>,
       \<lparr>getSet = 0, getWay = 2, replacementData = \<lparr>age = 7, valid = True, set_id = 0, way = 0\<rparr>\<rparr>,
       \<lparr>getSet = 0, getWay = 3, replacementData = \<lparr>age = 1, valid = True, set_id = 0, way = 0\<rparr>\<rparr>]))) ! 3))
     = Inl OutOfBounds \<and>
   touch (projr (LRUIPVRP_ctor \<lparr>p_numWays = 2, p_mru_pct = 50, p_quantum = 2\<rparr>))
     \<lparr>age = 1, valid = True, set_id = 0, way = 3\<rparr> = Inl OutOfBounds \<and>
   reset (projr (LRUIPVRP_ctor \<lparr>p_numWays = 2, p_mru_pct = 50, p_quantum = 2\<rparr>))
     \<lparr>age = 1, valid = True, set_id = 0, way = 3\<rparr> = Inl OutOfBounds"
  by code_simp

end
